theory Spec2Isabelle
  imports Main "HOL-Library.Word" "HOL-Library.Multiset"
begin

unbundle bit_operations_syntax

section \<open>Errors and panics\<close>

text \<open>
  Every error value the Go code returns and every panic it can raise is a constructor.
  \<open>ErrLibrary\<close> stands for an error handed up unchanged from the curve library or from
  \<open>encoding/hex\<close> (a point that does not decode, a malformed hex string).
\<close>

datatype error =
    ErrPolynomialMismatchedSizeDomain
  | ErrScalarsPointsLength
  | ErrScalarNotCanonical
  | ErrLagrangeMonomialLengthMismatch
  | ErrUnexpectedLagrangeSetup
  | ErrLibrary string
  | PanicRootOfUnityMissing
  | PanicNextPowerOfTwoOverflow
  | PanicNotPowerOfTwo
  | PanicIndexOutOfRange
  | PanicMakeSliceLen

section \<open>The scalar field (gnark-crypto \<open>fr.Element\<close>)\<close>

text \<open>
  A field element is modelled by its canonical representative, an integer in
  \<open>{0..<fr_modulus}\<close>. The operations are those of the curve library, by their contract:
  arithmetic modulo the group order of BLS12-381.
\<close>

type_synonym fr = int

definition fr_modulus :: int where
  "fr_modulus = 52435875175126190479447740508185965837690552500527637822603658699938581184513"

definition fr_add :: "fr \<Rightarrow> fr \<Rightarrow> fr" where
  "fr_add a b = (a + b) mod fr_modulus"

definition fr_sub :: "fr \<Rightarrow> fr \<Rightarrow> fr" where
  "fr_sub a b = (a - b) mod fr_modulus"

definition fr_mul :: "fr \<Rightarrow> fr \<Rightarrow> fr" where
  "fr_mul a b = (a * b) mod fr_modulus"

text \<open>\<open>fr_pow x n\<close> is \<open>x\<close> to the power \<open>n\<close> by squaring and multiplying.\<close>

function fr_pow :: "fr \<Rightarrow> nat \<Rightarrow> fr" where
  "fr_pow x n =
     (if n = 0 then 1
      else if even n then fr_pow (fr_mul x x) (n div 2)
      else fr_mul x (fr_pow (fr_mul x x) (n div 2)))"
  by pat_completeness auto
termination
  by (relation "measure (\<lambda>(x, n). n)") auto

declare fr_pow.simps [simp del]

text \<open>
  \<open>Element.Inverse\<close>: the inverse modulo the field order, and 0 for 0. It is computed by
  the extended Euclidean algorithm on \<open>(fr_modulus, x)\<close>: \<open>egcd_inverse a b u v\<close> keeps
  \<open>a = u * x\<close> and \<open>b = v * x\<close> modulo \<open>fr_modulus\<close>.
\<close>

function egcd_inverse :: "int \<Rightarrow> int \<Rightarrow> int \<Rightarrow> int \<Rightarrow> int" where
  "egcd_inverse a b u v =
     (if b \<le> 0 then u else egcd_inverse b (a mod b) v (u - (a div b) * v))"
  by pat_completeness auto
termination
  by (relation "measure (\<lambda>(a, b, u, v). nat b)") (auto simp: pos_mod_bound nat_less_iff)

declare egcd_inverse.simps [simp del]

definition fr_inverse :: "fr \<Rightarrow> fr" where
  "fr_inverse x = (if x = 0 then 0 else egcd_inverse fr_modulus x 0 1 mod fr_modulus)"

text \<open>
  \<open>Element.Exp(x, k)\<close> for a \<open>big.Int\<close> exponent: 1 for \<open>k = 0\<close>, the power of the
  inverse for a negative \<open>k\<close>.
\<close>

definition fr_exp :: "fr \<Rightarrow> int \<Rightarrow> fr" where
  "fr_exp x k =
     (if k = 0 then 1
      else if k < 0 then fr_pow (fr_inverse x) (nat (- k))
      else fr_pow x (nat k))"

text \<open>\<open>fr.BatchInvert\<close> returns the inverse of every element, zeros staying zero.\<close>

definition BatchInvert :: "fr list \<Rightarrow> fr list" where
  "BatchInvert a = map fr_inverse a"

section \<open>Control flow shared by the models\<close>

text \<open>Sequencing of fallible steps: the first error or panic ends the computation.\<close>

definition bind_err :: "error + 'a \<Rightarrow> ('a \<Rightarrow> error + 'b) \<Rightarrow> error + 'b" where
  "bind_err m f = (case m of Inl e \<Rightarrow> Inl e | Inr x \<Rightarrow> f x)"

text \<open>
  A counting loop \<open>for i := range is { s = body i s }\<close> whose body can panic: the
  indices are visited in order and the first panic ends the loop.
\<close>

fun for_each :: "nat list \<Rightarrow> (nat \<Rightarrow> 's \<Rightarrow> error + 's) \<Rightarrow> 's \<Rightarrow> error + 's" where
  "for_each [] body s = Inr s"
| "for_each (i # rest) body s = bind_err (body i s) (for_each rest body)"

text \<open>Go slice indexing: reading or writing outside the slice panics.\<close>

definition get_at :: "'a list \<Rightarrow> nat \<Rightarrow> error + 'a" where
  "get_at xs i = (if i < length xs then Inr (xs ! i) else Inl PanicIndexOutOfRange)"

definition set_at :: "'a list \<Rightarrow> nat \<Rightarrow> 'a \<Rightarrow> error + 'a list" where
  "set_at xs i v = (if i < length xs then Inr (xs[i := v]) else Inl PanicIndexOutOfRange)"

text \<open>
  \<open>make([]fr.Element, n)\<close> for a \<open>uint64\<close> length: a slice of zero elements, a panic
  when the length does not fit the (64-bit) \<open>int\<close>.
\<close>

definition make_slice :: "64 word \<Rightarrow> error + fr list" where
  "make_slice n = (if sint n < 0 then Inl PanicMakeSliceLen else Inr (replicate (unat n) 0))"


section \<open>Multi-scalar multiplication (internal/multiexp/multiexp.go)\<close>

text \<open>
  The commitment group is any abelian group \<open>'g\<close>; the zero value of \<open>curve.G1Affine\<close>
  is its identity. \<open>ScalarMultiplication n P\<close> is \<open>P\<close> added to itself \<open>n\<close> times, and
  \<open>G1_MultiExp\<close> is the library's \<open>G1Affine.MultiExp\<close> by its contract: the sum of
  the products \<open>scalars[i] * points[i]\<close>.
\<close>

primrec ScalarMultiplication :: "nat \<Rightarrow> 'g::ab_group_add \<Rightarrow> 'g" where
  "ScalarMultiplication 0 P = 0"
| "ScalarMultiplication (Suc n) P = P + ScalarMultiplication n P"

definition G1_MultiExp :: "'g::ab_group_add list \<Rightarrow> fr list \<Rightarrow> 'g" where
  "G1_MultiExp points scalars =
     sum_list (map (\<lambda>(s, P). ScalarMultiplication (nat s) P) (zip scalars points))"

definition MultiExp :: "fr list \<Rightarrow> 'g::ab_group_add list \<Rightarrow> error + 'g" where
  "MultiExp scalars points =
     (if length scalars \<noteq> length points then Inl ErrScalarsPointsLength
      else if length scalars = 0 then Inr 0
      else Inr (G1_MultiExp points scalars))"

text \<open>Applying the index permutation \<open>pi\<close> to a list.\<close>

definition permute_list_by :: "nat list \<Rightarrow> 'a list \<Rightarrow> 'a list" where
  "permute_list_by pi xs = map (\<lambda>i. xs ! i) pi"

section \<open>Scalar and point decoding (serialisation.go)\<close>

text \<open>
  \<open>SerialisedScalar\<close> is \<open>[32]byte\<close>, \<open>SerialisedG1Point\<close> is \<open>[48]byte\<close>,
  \<open>SerialisedPoly\<close> is an array of 4096 serialised scalars: byte lists and lists of
  byte lists, whose lengths the Go types fix.
\<close>

type_synonym byte = "8 word"

text \<open>
  Modelled from the spec: \<open>utils.ReverseArray\<close> (package internal/utils is not among the
  sources). The spec calls it the canonical byte-order reversal: the wire format is
  little-endian and the field library reads big-endian.
\<close>

definition ReverseArray :: "byte list \<Rightarrow> byte list" where
  "ReverseArray a = rev a"

text \<open>The integer a byte string denotes, most significant byte first and last.\<close>

definition be_bytes_value :: "byte list \<Rightarrow> int" where
  "be_bytes_value bs = foldl (\<lambda>acc b. 256 * acc + uint b) 0 bs"

definition le_bytes_value :: "byte list \<Rightarrow> int" where
  "le_bytes_value bs = foldr (\<lambda>b acc. uint b + 256 * acc) bs 0"

text \<open>
  Modelled from the spec: \<open>utils.ReduceCanonical\<close> (package internal/utils is not among
  the sources). The spec: a canonical-reduction check for scalars; the bytes are read as a
  big-endian integer, and the scalar is canonical when that integer is below the field
  modulus. The returned element is the integer reduced into the field.
\<close>

definition ReduceCanonical :: "byte list \<Rightarrow> fr \<times> bool" where
  "ReduceCanonical serScalar =
     (be_bytes_value serScalar mod fr_modulus, be_bytes_value serScalar < fr_modulus)"

definition deserialiseScalar :: "byte list \<Rightarrow> error + fr" where
  "deserialiseScalar serScalar =
     (case ReduceCanonical (ReverseArray serScalar) of
        (scalar, isCanon) \<Rightarrow> if \<not> isCanon then Inl ErrScalarNotCanonical else Inr scalar)"

text \<open>The loop of \<open>deserialisePoly\<close>: \<open>i\<close> is the loop counter, \<open>poly\<close> the slice being filled.\<close>

function deserialisePoly_loop :: "byte list list \<Rightarrow> nat \<Rightarrow> fr list \<Rightarrow> error + fr list" where
  "deserialisePoly_loop serPoly i poly =
     (if i < length serPoly then
        (case deserialiseScalar (serPoly ! i) of
           Inl err \<Rightarrow> Inl err
         | Inr scalar \<Rightarrow> deserialisePoly_loop serPoly (i + 1) (poly[i := scalar]))
      else Inr poly)"
  by pat_completeness auto
termination
  by (relation "measure (\<lambda>(serPoly, i, poly). length serPoly - i)") auto

definition deserialisePoly :: "byte list list \<Rightarrow> error + fr list" where
  "deserialisePoly serPoly = deserialisePoly_loop serPoly 0 (replicate (length serPoly) 0)"

text \<open>
  \<open>SetBytes\<close> is the curve library's \<open>G1Affine.SetBytes\<close> (decompression with the
  on-curve and subgroup checks); it is a parameter of the model.
\<close>

definition deserialiseG1Point :: "(byte list \<Rightarrow> error + 'g) \<Rightarrow> byte list \<Rightarrow> error + 'g" where
  "deserialiseG1Point SetBytes serPoint =
     (case SetBytes serPoint of Inl err \<Rightarrow> Inl err | Inr point \<Rightarrow> Inr point)"

function deserialiseComms_loop ::
  "(byte list \<Rightarrow> error + 'g) \<Rightarrow> byte list list \<Rightarrow> nat \<Rightarrow> 'g list \<Rightarrow> error + 'g list" where
  "deserialiseComms_loop SetBytes serComms i comms =
     (if i < length serComms then
        (case deserialiseG1Point SetBytes (serComms ! i) of
           Inl err \<Rightarrow> Inl err
         | Inr comm \<Rightarrow> deserialiseComms_loop SetBytes serComms (i + 1) (comms[i := comm]))
      else Inr comms)"
  by pat_completeness auto
termination
  by (relation "measure (\<lambda>(SetBytes, serComms, i, comms). length serComms - i)") auto

definition deserialiseComms ::
  "(byte list \<Rightarrow> error + 'g::ab_group_add) \<Rightarrow> byte list list \<Rightarrow> error + 'g list" where
  "deserialiseComms SetBytes serComms =
     deserialiseComms_loop SetBytes serComms 0 (replicate (length serComms) 0)"

text \<open>
  The specification both loops are compared with: decode the elements in order, stop at the
  first error, return the whole list otherwise.
\<close>

fun decode_each :: "('a \<Rightarrow> error + 'b) \<Rightarrow> 'a list \<Rightarrow> error + 'b list" where
  "decode_each dec [] = Inr []"
| "decode_each dec (x # xs) =
     (case dec x of
        Inl err \<Rightarrow> Inl err
      | Inr y \<Rightarrow> (case decode_each dec xs of Inl err \<Rightarrow> Inl err | Inr ys \<Rightarrow> Inr (y # ys)))"

text \<open>The 32-byte little-endian encodings of the modulus minus one and of the modulus.\<close>

definition modulus_minus_one_le :: "byte list" where
  "modulus_minus_one_le =
     [0, 0, 0, 0, 255, 255, 255, 255, 254, 91, 254, 255, 2, 164, 189, 83,
      5, 216, 161, 9, 8, 216, 57, 51, 72, 125, 157, 41, 83, 167, 237, 115]"

definition modulus_le :: "byte list" where
  "modulus_le =
     [1, 0, 0, 0, 255, 255, 255, 255, 254, 91, 254, 255, 2, 164, 189, 83,
      5, 216, 161, 9, 8, 216, 57, 51, 72, 125, 157, 41, 83, 167, 237, 115]"


text \<open>A stand-in for the library's point decoder, used to run the commitment loop.\<close>

definition toy_SetBytes :: "byte list \<Rightarrow> error + int" where
  "toy_SetBytes bs =
     (if length bs = 48 \<and> hd bs \<noteq> 0 then Inr (uint (hd bs))
      else Inl (ErrLibrary ''invalid point''))"

section \<open>math/bits and ecc.NextPowerOfTwo\<close>

text \<open>
  The functions of Go's \<open>math/bits\<close> the domain code calls, on the value of the
  \<open>uint64\<close>: the number of one bits, the bit length (\<open>Len64\<close>), the number of trailing
  zero bits (64 for 0) and the reversal of the 64 bits.
\<close>

function ones_count :: "nat \<Rightarrow> nat" where
  "ones_count k = (if k = 0 then 0 else k mod 2 + ones_count (k div 2))"
  by pat_completeness auto
termination
  by (relation "measure id") auto

declare ones_count.simps [simp del]

function bit_length :: "nat \<Rightarrow> nat" where
  "bit_length k = (if k = 0 then 0 else Suc (bit_length (k div 2)))"
  by pat_completeness auto
termination
  by (relation "measure id") auto

declare bit_length.simps [simp del]

function trailing_zeros :: "nat \<Rightarrow> nat" where
  "trailing_zeros k = (if k = 0 \<or> odd k then 0 else Suc (trailing_zeros (k div 2)))"
  by pat_completeness auto
termination
  by (relation "measure id") auto

declare trailing_zeros.simps [simp del]

definition OnesCount64 :: "64 word \<Rightarrow> nat" where
  "OnesCount64 x = ones_count (unat x)"

definition LeadingZeros64 :: "64 word \<Rightarrow> nat" where
  "LeadingZeros64 x = 64 - bit_length (unat x)"

definition TrailingZeros64 :: "64 word \<Rightarrow> nat" where
  "TrailingZeros64 x = (if x = 0 then 64 else trailing_zeros (unat x))"

definition Reverse64 :: "64 word \<Rightarrow> 64 word" where
  "Reverse64 x = word_reverse x"

text \<open>
  \<open>ecc.NextPowerOfTwo\<close> of the curve library: 1 for 0, \<open>n\<close> itself when it has a single
  one bit, else 1 shifted past the highest one bit, with a panic when that is \<open>2^64\<close>.
\<close>

definition NextPowerOfTwo :: "64 word \<Rightarrow> error + 64 word" where
  "NextPowerOfTwo n =
     (let c = OnesCount64 n in
      if c = 0 then Inr 1
      else if c = 1 then Inr n
      else
        let t = LeadingZeros64 n in
        if t = 0 then Inl PanicNextPowerOfTwoOverflow
        else Inr (push_bit (64 - t) 1))"

text \<open>
  Modelled from the spec: \<open>utils.IsPowerOfTwo\<close> (package internal/utils is not among the
  sources), the power-of-two test on a \<open>uint64\<close>.
\<close>

definition IsPowerOfTwo :: "64 word \<Rightarrow> bool" where
  "IsPowerOfTwo n \<longleftrightarrow> (\<exists>k<64. n = 2 ^ k)"

section \<open>The evaluation domain (internal/kzg/domain.go)\<close>

record Domain =
  Cardinality :: "64 word"
  CardinalityInv :: fr
  Generator :: fr
  GeneratorInv :: fr
  Roots :: "fr list"
  PreComputedInverses :: "fr list"

definition rootOfUnity :: fr where
  "rootOfUnity = 10238227357739495823651030575849232062558860180284477541189508159991286009131"

definition maxOrderRoot :: nat where
  "maxOrderRoot = 32"

text \<open>
  The two loops of \<open>NewDomain\<close> over \<open>i < x\<close>. The first carries the slice of roots and
  \<open>current\<close>; the second fills the inverses from the finished roots.
\<close>

definition NewDomain_roots :: "fr \<Rightarrow> nat \<Rightarrow> fr list" where
  "NewDomain_roots generator x =
     fst (fold (\<lambda>i (roots, current). (roots[i := current], fr_mul current generator))
            [0..<x] (replicate x 0, 1))"

definition NewDomain_inverses :: "fr list \<Rightarrow> nat \<Rightarrow> fr list" where
  "NewDomain_inverses roots x =
     fold (\<lambda>i inverses. inverses[i := fr_inverse (roots ! i)]) [0..<x] (replicate x 0)"

definition NewDomain :: "64 word \<Rightarrow> error + Domain" where
  "NewDomain m =
     bind_err (NextPowerOfTwo m) (\<lambda>x.
       let logx = TrailingZeros64 x in
       if logx > maxOrderRoot then Inl PanicRootOfUnityMissing
       else
         let expo = (push_bit (maxOrderRoot - logx) 1 :: 64 word);
             generator = fr_exp rootOfUnity (sint expo);
             roots = NewDomain_roots generator (unat x)
         in Inr \<lparr>Cardinality = x,
                 CardinalityInv = fr_inverse (uint x mod fr_modulus),
                 Generator = generator,
                 GeneratorInv = fr_inverse generator,
                 Roots = roots,
                 PreComputedInverses = NewDomain_inverses roots (unat x)\<rparr>)"

text \<open>
  \<open>bitReverse\<close>: the in-place bit-reversal permutation. \<open>irev\<close> is \<open>bits.Reverse64(i) >> nn\<close>;
  a Go shift by 64 or more gives 0, as \<open>drop_bit\<close> does.
\<close>

definition swap_at :: "'a list \<Rightarrow> nat \<Rightarrow> nat \<Rightarrow> error + 'a list" where
  "swap_at xs i j =
     (if i < length xs \<and> j < length xs then Inr (xs[i := xs ! j, j := xs ! i])
      else Inl PanicIndexOutOfRange)"

definition bitReverse :: "'a list \<Rightarrow> error + 'a list" where
  "bitReverse list =
     (let n = (of_nat (length list) :: 64 word) in
      if \<not> IsPowerOfTwo n then Inl PanicNotPowerOfTwo
      else
        let nn = 64 - TrailingZeros64 n in
        for_each [0..<unat n]
          (\<lambda>i list.
             let irev = drop_bit nn (Reverse64 (of_nat i)) in
             if irev > of_nat i then swap_at list i (unat irev) else Inr list)
          list)"

text \<open>The index \<open>bits.Reverse64(i) >> (64 - k)\<close> of \<open>bitReverse\<close> for a list of \<open>2^k\<close> elements.\<close>

definition reversed_index :: "nat \<Rightarrow> nat \<Rightarrow> nat" where
  "reversed_index k i = unat (drop_bit (64 - k) (Reverse64 (of_nat i)))"

definition ReverseRoots :: "Domain \<Rightarrow> error + Domain" where
  "ReverseRoots d =
     bind_err (bitReverse (Roots d)) (\<lambda>roots.
     bind_err (bitReverse (PreComputedInverses d)) (\<lambda>inverses.
       Inr (d\<lparr>Roots := roots, PreComputedInverses := inverses\<rparr>)))"

text \<open>
  \<open>findRootIndex\<close>: the linear scan \<open>for i := 0; i < int(d.Cardinality); i++\<close>, returning
  the first index whose root equals the point, or \<open>-1\<close>.
\<close>

function findRootIndex_from :: "Domain \<Rightarrow> fr \<Rightarrow> nat \<Rightarrow> error + int" where
  "findRootIndex_from d point i =
     (if int i < sint (Cardinality d) then
        (if i < length (Roots d) then
           (if point = Roots d ! i then Inr (int i) else findRootIndex_from d point (i + 1))
         else Inl PanicIndexOutOfRange)
      else Inr (- 1))"
  by pat_completeness auto
termination
  by (relation "measure (\<lambda>(d, point, i). nat (sint (Cardinality d)) - i)") auto

declare findRootIndex_from.simps [simp del]

definition findRootIndex :: "Domain \<Rightarrow> fr \<Rightarrow> error + int" where
  "findRootIndex d point = findRootIndex_from d point 0"

text \<open>
  The part the single and the batched evaluator share in the source text: the scaling
  \<open>result * (z^width - 1) * 1/width\<close>.
\<close>

definition scale_by_vanishing :: "Domain \<Rightarrow> fr \<Rightarrow> fr \<Rightarrow> fr" where
  "scale_by_vanishing domain evalPoint result =
     (let tmp = fr_exp evalPoint (sint (Cardinality domain));
          tmp = fr_sub tmp 1;
          tmp = fr_mul tmp (CardinalityInv domain)
      in fr_mul tmp result)"

definition evaluateLagrangePolynomial :: "Domain \<Rightarrow> fr list \<Rightarrow> fr \<Rightarrow> error + fr \<times> int" where
  "evaluateLagrangePolynomial domain poly evalPoint =
     (if Cardinality domain \<noteq> of_nat (length poly) then Inl ErrPolynomialMismatchedSizeDomain
      else
        bind_err (findRootIndex domain evalPoint) (\<lambda>indexInDomain.
          if indexInDomain \<noteq> - 1 then
            bind_err (get_at poly (nat indexInDomain)) (\<lambda>v. Inr (v, indexInDomain))
          else
            bind_err (make_slice (Cardinality domain)) (\<lambda>denom.
            bind_err (for_each [0..<length denom]
                        (\<lambda>i denom.
                           bind_err (get_at (Roots domain) i) (\<lambda>root.
                             set_at denom i (fr_sub evalPoint root)))
                        denom) (\<lambda>denom.
              let invDenom = BatchInvert denom in
              bind_err (for_each [0..<nat (sint (Cardinality domain))]
                          (\<lambda>i result.
                             bind_err (get_at poly i) (\<lambda>p.
                             bind_err (get_at (Roots domain) i) (\<lambda>root.
                             bind_err (get_at invDenom i) (\<lambda>inv.
                               let num = fr_mul p root;
                                   quot = fr_mul num inv
                               in Inr (fr_add result quot)))))
                          0) (\<lambda>result.
                Inr (scale_by_vanishing domain evalPoint result, indexInDomain))))))"

definition EvaluateLagrangePolynomial :: "Domain \<Rightarrow> fr list \<Rightarrow> fr \<Rightarrow> error + fr" where
  "EvaluateLagrangePolynomial domain poly evalPoint =
     bind_err (evaluateLagrangePolynomial domain poly evalPoint) (\<lambda>(outputPoint, _). Inr outputPoint)"

definition EvaluateLagrangePolynomials :: "Domain \<Rightarrow> fr list list \<Rightarrow> fr list \<Rightarrow> error + fr list" where
  "EvaluateLagrangePolynomials domain polys evalPoints =
     bind_err (for_each [0..<length polys]
                 (\<lambda>i indicesInDomain.
                    bind_err (get_at evalPoints i) (\<lambda>evalPoint.
                    bind_err (findRootIndex domain evalPoint) (\<lambda>index.
                      set_at indicesInDomain i index)))
                 (replicate (length polys) 0)) (\<lambda>indicesInDomain.
     let numBatchInversionsNeeded =
           fold (\<lambda>i n. if indicesInDomain ! i = - 1 then n + 1 else n)
             [0..<length indicesInDomain] (0 :: nat)
     in
     bind_err (make_slice (Cardinality domain * of_nat numBatchInversionsNeeded)) (\<lambda>denom.
     bind_err (for_each [0..<length evalPoints]
                 (\<lambda>polyOffset denom.
                    for_each [0..<nat (sint (Cardinality domain))]
                      (\<lambda>rootIndex denom.
                         bind_err (get_at (Roots domain) rootIndex) (\<lambda>root.
                           set_at denom (polyOffset + rootIndex)
                             (fr_sub (evalPoints ! polyOffset) root)))
                      denom)
                 denom) (\<lambda>denom.
     let denom = BatchInvert denom in
     for_each [0..<length indicesInDomain]
       (\<lambda>i evaluations.
          bind_err (get_at polys i) (\<lambda>poly.
          bind_err (get_at evalPoints i) (\<lambda>evalPoint.
            let indexInDomain = indicesInDomain ! i in
            if indexInDomain \<noteq> - 1 then
              bind_err (get_at poly (nat indexInDomain)) (\<lambda>v. set_at evaluations i v)
            else
              bind_err (for_each [0..<nat (sint (Cardinality domain))]
                          (\<lambda>rootIndex result.
                             bind_err (get_at poly rootIndex) (\<lambda>p.
                             bind_err (get_at (Roots domain) rootIndex) (\<lambda>root.
                             bind_err (get_at denom (rootIndex + i)) (\<lambda>inv.
                               let num = fr_mul p root;
                                   quot = fr_mul num inv
                               in Inr (fr_add result quot)))))
                          0) (\<lambda>result.
                set_at evaluations i (scale_by_vanishing domain evalPoint result)))))
       (replicate (length polys) 0))))"

text \<open>
  The closed form the specification gives for a point outside the domain: the sum over
  \<open>i\<close> of \<open>poly[i] * root[i] / (z - root[i])\<close>, times \<open>z^Cardinality - 1\<close>, times
  \<open>CardinalityInv\<close>, in the field; the division is the multiplication by the inverse.
\<close>

definition barycentric_value :: "Domain \<Rightarrow> fr list \<Rightarrow> fr \<Rightarrow> fr" where
  "barycentric_value d poly z =
     ((\<Sum>i<unat (Cardinality d).
          poly ! i * Roots d ! i * fr_inverse ((z - Roots d ! i) mod fr_modulus))
      * (z ^ unat (Cardinality d) - 1) * CardinalityInv d) mod fr_modulus"

text \<open>The domain of the two square roots of 1, with the values \<open>NewDomain\<close> computes for size 2.\<close>

definition domain_of_size_2 :: Domain where
  "domain_of_size_2 =
     \<lparr>Cardinality = 2,
      CardinalityInv = (fr_modulus + 1) div 2,
      Generator = fr_modulus - 1,
      GeneratorInv = fr_modulus - 1,
      Roots = [1, fr_modulus - 1],
      PreComputedInverses = [1, fr_modulus - 1]\<rparr>"

section \<open>Properties of MultiExp\<close>

lemma G1_MultiExp_as_index_sum:
  assumes "length scalars = length points"
  shows "G1_MultiExp points scalars =
         sum_list (map (\<lambda>i. ScalarMultiplication (nat (scalars ! i)) (points ! i))
                       [0..<length scalars])"
proof -
  have "map (\<lambda>(s, P). ScalarMultiplication (nat s) P) (zip scalars points) =
        map (\<lambda>i. ScalarMultiplication (nat (scalars ! i)) (points ! i)) [0..<length scalars]"
    using assms by (intro nth_equalityI) simp_all
  then show ?thesis by (simp add: G1_MultiExp_def)
qed

lemma G1_MultiExp_permuted:
  assumes len: "length scalars = length points"
    and pi: "mset pi = mset [0..<length scalars]"
  shows "G1_MultiExp (permute_list_by pi points) (permute_list_by pi scalars) =
         G1_MultiExp points scalars"
proof -
  let ?summand = "\<lambda>i. ScalarMultiplication (nat (scalars ! i)) (points ! i)"
  have "map (\<lambda>(s, P). ScalarMultiplication (nat s) P)
          (zip (permute_list_by pi scalars) (permute_list_by pi points)) = map ?summand pi"
    by (intro nth_equalityI) (simp_all add: permute_list_by_def)
  then have "G1_MultiExp (permute_list_by pi points) (permute_list_by pi scalars) =
             sum_list (map ?summand pi)"
    by (simp add: G1_MultiExp_def)
  also have "\<dots> = sum_mset (image_mset ?summand (mset pi))"
    by (simp only: sum_mset_sum_list [symmetric] mset_map)
  also have "\<dots> = sum_mset (image_mset ?summand (mset [0..<length scalars]))"
    by (simp only: pi)
  also have "\<dots> = sum_list (map ?summand [0..<length scalars])"
    by (simp only: sum_mset_sum_list [symmetric] mset_map)
  also have "\<dots> = G1_MultiExp points scalars"
    by (simp only: G1_MultiExp_as_index_sum [OF len])
  finally show ?thesis .
qed

text \<open>
  C7. \<open>MultiExp\<close> fails with the length-mismatch error whenever the two lists differ in
  length, and on two empty lists it returns the group identity, not an error.
\<close>

theorem MultiExp_length_contract:
  "(length scalars \<noteq> length points \<longrightarrow>
      MultiExp scalars (points :: 'g::ab_group_add list) = Inl ErrScalarsPointsLength)
   \<and> MultiExp [] ([] :: 'g list) = Inr 0"
  by (simp add: MultiExp_def)

theorem MultiExp_length_contract_witness:
  "length [3 :: fr, 4] \<noteq> length [7 :: int]
   \<and> MultiExp [3, 4] [7 :: int] = Inl ErrScalarsPointsLength
   \<and> MultiExp [] ([] :: int list) = Inr 0"
  using MultiExp_length_contract [of "[3, 4]" "[7 :: int]"] by simp

text \<open>
  C9. For equal-length lists and any permutation \<open>pi\<close> of the indices applied to both
  lists alike, \<open>MultiExp\<close> returns the same group element; and \<open>MultiExp [1] [P]\<close>
  returns \<open>P\<close>.
\<close>

theorem MultiExp_permutation_invariant:
  "(length scalars = length points \<and> mset pi = mset [0..<length scalars] \<longrightarrow>
      MultiExp (permute_list_by pi scalars) (permute_list_by pi points) =
      MultiExp scalars (points :: 'g::ab_group_add list))
   \<and> MultiExp [1] [P :: 'g] = Inr P"
proof (intro conjI impI)
  assume h: "length scalars = length points \<and> mset pi = mset [0..<length scalars]"
  then have len: "length scalars = length points"
    and pi: "mset pi = mset [0..<length scalars]" by simp_all
  have "length pi = length scalars"
    using pi by (metis length_upt minus_nat.diff_0 size_mset)
  then show "MultiExp (permute_list_by pi scalars) (permute_list_by pi points) =
             MultiExp scalars points"
    using G1_MultiExp_permuted [OF len pi] len
    by (simp add: MultiExp_def permute_list_by_def)
next
  show "MultiExp [1] [P] = Inr P"
    by (simp add: MultiExp_def G1_MultiExp_def)
qed

theorem MultiExp_permutation_invariant_witness:
  "length [2 :: fr, 3, 5] = length [10 :: int, 20, 30]
   \<and> mset [2 :: nat, 0, 1] = mset [0..<length [2 :: fr, 3, 5]]
   \<and> permute_list_by [2, 0, 1] [2 :: fr, 3, 5] = [5, 2, 3]
   \<and> permute_list_by [2, 0, 1] [10 :: int, 20, 30] = [30, 10, 20]
   \<and> MultiExp [5, 2, 3] [30 :: int, 10, 20] = MultiExp [2, 3, 5] [10 :: int, 20, 30]
   \<and> MultiExp [1] [7 :: int] = Inr 7"
proof -
  have m: "mset [2 :: nat, 0, 1] = mset [0..<length [2 :: fr, 3, 5]]"
    by (simp add: upt_rec add_mset_commute)
  have p1: "permute_list_by [2, 0, 1] [2 :: fr, 3, 5] = [5, 2, 3]"
    by (simp add: permute_list_by_def)
  have p2: "permute_list_by [2, 0, 1] [10 :: int, 20, 30] = [30, 10, 20]"
    by (simp add: permute_list_by_def)
  show ?thesis
    using MultiExp_permutation_invariant
      [of "[2, 3, 5]" "[10 :: int, 20, 30]" "[2, 0, 1]" 7] m p1 p2
    by simp
qed

section \<open>Properties of the field operations and of the loops\<close>


lemma bind_err_simps [simp]:
  "bind_err (Inl e) f = Inl e"
  "bind_err (Inr x) f = f x"
  by (simp_all add: bind_err_def)

lemma for_each_append:
  "for_each (xs @ ys) body s = bind_err (for_each xs body s) (for_each ys body)"
proof (induction xs arbitrary: s)
  case Nil
  show ?case by simp
next
  case (Cons x xs)
  show ?case
  proof (cases "body x s")
    case (Inl e)
    then show ?thesis by simp
  next
    case (Inr s')
    then show ?thesis using Cons.IH [of s'] by simp
  qed
qed

lemma for_each_upt_Suc:
  "for_each [0..<Suc n] body s = bind_err (for_each [0..<n] body s) (body n)"
proof -
  have "for_each [n] body t = body n t" for t
    by (cases "body n t") simp_all
  then have "for_each [n] body = body n" by (intro ext)
  then show ?thesis by (simp add: for_each_append)
qed

lemma fr_modulus_gt_2: "2 < fr_modulus"
  by (simp add: fr_modulus_def)

lemma one_mod_fr_modulus: "1 mod fr_modulus = 1"
  by (rule mod_pos_pos_trivial) (use fr_modulus_gt_2 in simp_all)

lemma fr_pow_eq: "fr_pow x n = x ^ n mod fr_modulus"
proof (induction x n rule: fr_pow.induct)
  case (1 x n)
  show ?case
  proof (cases "n = 0")
    case True
    then show ?thesis by (subst fr_pow.simps) (simp add: one_mod_fr_modulus)
  next
    case n0: False
    have sq: "(x * x mod fr_modulus) ^ (n div 2) mod fr_modulus = x ^ (2 * (n div 2)) mod fr_modulus"
      by (simp add: power_mod power_mult power2_eq_square)
    show ?thesis
    proof (cases "even n")
      case True
      then have n: "2 * (n div 2) = n" by simp
      have "fr_pow x n = fr_pow (fr_mul x x) (n div 2)"
        using n0 True by (subst fr_pow.simps) simp
      also have "\<dots> = (x * x mod fr_modulus) ^ (n div 2) mod fr_modulus"
        using "1.IH"(1) [OF n0 True] by (simp add: fr_mul_def)
      finally show ?thesis using sq n by simp
    next
      case False
      then have n: "Suc (2 * (n div 2)) = n" by simp
      have "fr_pow x n = fr_mul x (fr_pow (fr_mul x x) (n div 2))"
        using n0 False by (subst fr_pow.simps) simp
      also have "\<dots> = (x * (x ^ (2 * (n div 2)) mod fr_modulus)) mod fr_modulus"
        using "1.IH"(2) [OF n0 False] sq by (simp add: fr_mul_def)
      also have "\<dots> = (x * x ^ (2 * (n div 2))) mod fr_modulus"
        by (simp add: mod_mult_right_eq)
      also have "x * x ^ (2 * (n div 2)) = x ^ Suc (2 * (n div 2))" by simp
      finally show ?thesis using n by simp
    qed
  qed
qed

lemma findRootIndex_from_none:
  "nat (sint (Cardinality d)) \<le> length (Roots d) \<Longrightarrow>
   \<forall>j. i \<le> j \<and> j < nat (sint (Cardinality d)) \<longrightarrow> Roots d ! j \<noteq> point \<Longrightarrow>
   findRootIndex_from d point i = Inr (- 1)"
proof (induction d point i rule: findRootIndex_from.induct)
  case (1 d point i)
  show ?case
  proof (cases "int i < sint (Cardinality d)")
    case False
    then show ?thesis by (subst findRootIndex_from.simps) simp
  next
    case True
    then have i: "i < nat (sint (Cardinality d))" by simp
    then have il: "i < length (Roots d)" using "1.prems"(1) by simp
    have ne: "point \<noteq> Roots d ! i" using "1.prems"(2) i by auto
    have "findRootIndex_from d point (i + 1) = Inr (- 1)"
      using "1.IH" [OF True il ne] "1.prems" by simp
    then show ?thesis using True il ne by (subst findRootIndex_from.simps) simp
  qed
qed

lemma findRootIndex_from_first:
  "nat (sint (Cardinality d)) \<le> length (Roots d) \<Longrightarrow>
   i \<le> k \<Longrightarrow> k < nat (sint (Cardinality d)) \<Longrightarrow> Roots d ! k = point \<Longrightarrow>
   \<forall>j. i \<le> j \<and> j < k \<longrightarrow> Roots d ! j \<noteq> point \<Longrightarrow>
   findRootIndex_from d point i = Inr (int k)"
proof (induction d point i rule: findRootIndex_from.induct)
  case (1 d point i)
  have lt: "int i < sint (Cardinality d)" using "1.prems"(2,3) by simp
  have il: "i < length (Roots d)" using "1.prems"(1,2,3) by simp
  show ?case
  proof (cases "i = k")
    case True
    then show ?thesis using lt il "1.prems"(4) by (subst findRootIndex_from.simps) simp
  next
    case False
    then have ik: "i < k" using "1.prems"(2) by simp
    then have ne: "point \<noteq> Roots d ! i" using "1.prems"(5) by auto
    have "findRootIndex_from d point (i + 1) = Inr (int k)"
      using "1.IH" [OF lt il ne] "1.prems" ik by simp
    then show ?thesis using lt il ne by (subst findRootIndex_from.simps) simp
  qed
qed

lemma denom_loop:
  "n \<le> length denom \<Longrightarrow> n \<le> length roots \<Longrightarrow>
   for_each [0..<n]
     (\<lambda>i denom. bind_err (get_at roots i) (\<lambda>root. set_at denom i (f root))) denom =
   Inr (map (\<lambda>i. f (roots ! i)) [0..<n] @ drop n denom)"
proof (induction n)
  case 0
  show ?case by simp
next
  case (Suc n)
  have "(map (\<lambda>i. f (roots ! i)) [0..<n] @ drop n denom)[n := f (roots ! n)] =
        map (\<lambda>i. f (roots ! i)) [0..<Suc n] @ drop (Suc n) denom"
    using Suc.prems
    by (intro nth_equalityI) (auto simp: nth_append nth_list_update less_Suc_eq)
  then show ?case
    using Suc by (simp only: for_each_upt_Suc) (simp add: get_at_def set_at_def)
qed


lemma sum_loop:
  "n \<le> length poly \<Longrightarrow> n \<le> length roots \<Longrightarrow> \<forall>i<n. g i < length invs \<Longrightarrow>
   for_each [0..<n]
     (\<lambda>i result.
        bind_err (get_at poly i) (\<lambda>p.
        bind_err (get_at roots i) (\<lambda>root.
        bind_err (get_at invs (g i)) (\<lambda>inv.
          let num = fr_mul p root; quot = fr_mul num inv in Inr (fr_add result quot)))))
     0 =
   Inr ((\<Sum>i<n. poly ! i * roots ! i * invs ! g i) mod fr_modulus)"
proof (induction n)
  case 0
  show ?case by simp
next
  case (Suc n)
  have "fr_add ((\<Sum>i<n. poly ! i * roots ! i * invs ! g i) mod fr_modulus)
          (fr_mul (fr_mul (poly ! n) (roots ! n)) (invs ! g n)) =
        (\<Sum>i<Suc n. poly ! i * roots ! i * invs ! g i) mod fr_modulus"
    by (simp add: fr_add_def fr_mul_def mod_simps)
  then show ?case
    using Suc by (simp only: for_each_upt_Suc) (simp add: get_at_def Let_def)
qed

lemma fr_exp_nat: "fr_exp z (int n) = z ^ n mod fr_modulus"
proof (cases "n = 0")
  case True
  then show ?thesis by (simp add: fr_exp_def one_mod_fr_modulus)
next
  case False
  then show ?thesis by (simp add: fr_exp_def fr_pow_eq)
qed

lemma scale_by_vanishing_eq:
  assumes "sint (Cardinality d) = int n"
  shows "scale_by_vanishing d z (S mod fr_modulus) =
         (S * (z ^ n - 1) * CardinalityInv d) mod fr_modulus"
proof -
  let ?m = fr_modulus
  let ?c = "CardinalityInv d"
  have "scale_by_vanishing d z (S mod ?m) =
        ((((z ^ n mod ?m - 1) mod ?m) * ?c) mod ?m * (S mod ?m)) mod ?m"
    using assms by (simp add: scale_by_vanishing_def Let_def fr_exp_nat fr_sub_def fr_mul_def)
  also have "(z ^ n mod ?m - 1) mod ?m = (z ^ n - 1) mod ?m"
    by (simp add: mod_diff_left_eq)
  also have "((((z ^ n - 1) mod ?m) * ?c) mod ?m * (S mod ?m)) mod ?m =
             (((z ^ n - 1) * ?c) * S) mod ?m"
    by (simp add: mod_mult_left_eq mod_mult_right_eq mod_mult_eq)
  also have "((z ^ n - 1) * ?c) * S = S * (z ^ n - 1) * ?c"
    by (simp add: mult.commute mult.left_commute)
  finally show ?thesis .
qed

lemma sint_of_small:
  fixes c :: "64 word"
  assumes "unat c < 2 ^ 63"
  shows "sint c = int (unat c)"
proof -
  have u: "uint c < 2 ^ 63"
  proof -
    have "int (unat c) < int (2 ^ 63)" using assms by (rule iffD2 [OF of_nat_less_iff])
    then show ?thesis by simp
  qed
  have l: "- (2 ^ 63) \<le> uint c"
  proof -
    have "(0::int) \<le> uint c" by simp
    moreover have "- (2 ^ 63) \<le> (0::int)" by simp
    ultimately show ?thesis by (rule order_trans [rotated])
  qed
  have "signed_take_bit 63 (uint c) = uint c"
    using l u by (rule signed_take_bit_int_eq_self)
  moreover have "sint c = signed_take_bit 63 (uint c)"
    by (simp add: sint_uint)
  ultimately show ?thesis by simp
qed

lemma unat_of_nat_small:
  "n < 2 ^ 63 \<Longrightarrow> unat (of_nat n :: 64 word) = n"
  by (rule of_nat_inverse [OF refl]) simp

lemma Cardinality_eq_length_iff:
  assumes "length poly < 2 ^ 63"
  shows "Cardinality d = of_nat (length poly) \<longleftrightarrow> unat (Cardinality d) = length poly"
proof
  assume "Cardinality d = of_nat (length poly)"
  then show "unat (Cardinality d) = length poly"
    using unat_of_nat_small [OF assms] by simp
next
  assume "unat (Cardinality d) = length poly"
  then have "of_nat (length poly) = (of_nat (unat (Cardinality d)) :: 64 word)" by simp
  then show "Cardinality d = of_nat (length poly)" by simp
qed

lemma findRootIndex_at_root:
  assumes len: "length (Roots d) = unat (Cardinality d)" and small: "unat (Cardinality d) < 2 ^ 63"
    and dist: "distinct (Roots d)" and i: "i < unat (Cardinality d)"
  shows "findRootIndex d (Roots d ! i) = Inr (int i)"
proof -
  have c: "nat (sint (Cardinality d)) = unat (Cardinality d)"
    using sint_of_small [OF small] by simp
  have "\<forall>j. 0 \<le> j \<and> j < i \<longrightarrow> Roots d ! j \<noteq> Roots d ! i"
    using dist i len by (auto simp: nth_eq_iff_index_eq)
  then show ?thesis
    unfolding findRootIndex_def
    using len i c by (intro findRootIndex_from_first) simp_all
qed

lemma findRootIndex_outside:
  assumes len: "length (Roots d) = unat (Cardinality d)" and small: "unat (Cardinality d) < 2 ^ 63"
    and out: "z \<notin> set (Roots d)"
  shows "findRootIndex d z = Inr (- 1)"
proof -
  have c: "nat (sint (Cardinality d)) = unat (Cardinality d)"
    using sint_of_small [OF small] by simp
  have "\<forall>j. 0 \<le> j \<and> j < nat (sint (Cardinality d)) \<longrightarrow> Roots d ! j \<noteq> z"
    using out len c by (auto simp: in_set_conv_nth)
  then show ?thesis
    unfolding findRootIndex_def using len c by (intro findRootIndex_from_none) simp_all
qed

lemma evaluateLagrangePolynomial_general:
  assumes len: "length (Roots d) = unat (Cardinality d)"
    and plen: "length poly = unat (Cardinality d)" and small: "length poly < 2 ^ 63"
    and out: "z \<notin> set (Roots d)"
  shows "evaluateLagrangePolynomial d poly z = Inr (barycentric_value d poly z, - 1)"
proof -
  let ?n = "unat (Cardinality d)"
  have nsmall: "?n < 2 ^ 63" using plen small by simp
  have s: "sint (Cardinality d) = int ?n" by (rule sint_of_small [OF nsmall])
  have eq: "Cardinality d = of_nat (length poly)"
    using Cardinality_eq_length_iff [OF small] plen by simp
  have fr: "findRootIndex d z = Inr (- 1)"
    by (rule findRootIndex_outside [OF len nsmall out])
  have mk: "make_slice (Cardinality d) = Inr (replicate ?n 0)"
    using s by (simp add: make_slice_def)
  have dl: "for_each [0..<?n]
              (\<lambda>i denom. bind_err (get_at (Roots d) i) (\<lambda>root. set_at denom i (fr_sub z root)))
              (replicate ?n 0) =
            Inr (map (\<lambda>i. fr_sub z (Roots d ! i)) [0..<?n])"
    using denom_loop [of ?n "replicate ?n 0" "Roots d" "fr_sub z"] len by simp
  let ?inv = "BatchInvert (map (\<lambda>i. fr_sub z (Roots d ! i)) [0..<?n])"
  have sl: "for_each [0..<?n]
              (\<lambda>i result.
                 bind_err (get_at poly i) (\<lambda>p.
                 bind_err (get_at (Roots d) i) (\<lambda>root.
                 bind_err (get_at ?inv i) (\<lambda>inv.
                   let num = fr_mul p root; quot = fr_mul num inv in Inr (fr_add result quot)))))
              0 =
            Inr ((\<Sum>i<?n. poly ! i * Roots d ! i * ?inv ! i) mod fr_modulus)"
    using len plen by (intro sum_loop) (simp_all add: BatchInvert_def)
  have sums: "(\<Sum>i<?n. poly ! i * Roots d ! i * ?inv ! i) =
              (\<Sum>i<?n. poly ! i * Roots d ! i * fr_inverse ((z - Roots d ! i) mod fr_modulus))"
    by (intro sum.cong refl) (simp add: BatchInvert_def fr_sub_def)
  have "evaluateLagrangePolynomial d poly z =
        Inr (scale_by_vanishing d z
               ((\<Sum>i<?n. poly ! i * Roots d ! i * ?inv ! i) mod fr_modulus), - 1)"
    unfolding evaluateLagrangePolynomial_def
    using eq fr mk dl sl s by (simp add: Let_def)
  then show ?thesis
    using scale_by_vanishing_eq [OF s] sums by (simp add: barycentric_value_def)
qed

text \<open>
  C5. For a domain whose roots are pairwise distinct and as many as its cardinality:
  \<open>EvaluateLagrangePolynomial\<close> fails with the size-mismatch error whenever the
  polynomial's length differs from the cardinality; when the lengths agree and \<open>z\<close> is the
  root at index \<open>i\<close> it returns \<open>poly[i]\<close>; and when \<open>z\<close> is no root it returns the
  barycentric value.
\<close>

theorem EvaluateLagrangePolynomial_contract:
  assumes "length (Roots d) = unat (Cardinality d)" and "distinct (Roots d)"
    and "length poly < 2 ^ 63"
  shows "(length poly \<noteq> unat (Cardinality d) \<longrightarrow>
            EvaluateLagrangePolynomial d poly z = Inl ErrPolynomialMismatchedSizeDomain)
       \<and> (length poly = unat (Cardinality d) \<longrightarrow>
            (\<forall>i<length poly. z = Roots d ! i \<longrightarrow>
               EvaluateLagrangePolynomial d poly z = Inr (poly ! i))
          \<and> (z \<notin> set (Roots d) \<longrightarrow>
               EvaluateLagrangePolynomial d poly z = Inr (barycentric_value d poly z)))"
proof (intro conjI impI allI)
  assume "length poly \<noteq> unat (Cardinality d)"
  then have "Cardinality d \<noteq> of_nat (length poly)"
    using Cardinality_eq_length_iff [OF assms(3), of d] by simp
  then show "EvaluateLagrangePolynomial d poly z = Inl ErrPolynomialMismatchedSizeDomain"
    by (simp add: EvaluateLagrangePolynomial_def evaluateLagrangePolynomial_def)
next
  fix i
  assume plen: "length poly = unat (Cardinality d)" and i: "i < length poly"
    and z: "z = Roots d ! i"
  have eq: "Cardinality d = of_nat (length poly)"
    using Cardinality_eq_length_iff [OF assms(3)] plen by simp
  have "findRootIndex d z = Inr (int i)"
    unfolding z using assms plen i by (intro findRootIndex_at_root) simp_all
  then show "EvaluateLagrangePolynomial d poly z = Inr (poly ! i)"
    using eq i
    by (simp add: EvaluateLagrangePolynomial_def evaluateLagrangePolynomial_def get_at_def)
next
  assume plen: "length poly = unat (Cardinality d)" and out: "z \<notin> set (Roots d)"
  show "EvaluateLagrangePolynomial d poly z = Inr (barycentric_value d poly z)"
    using evaluateLagrangePolynomial_general [OF assms(1) plen assms(3) out]
    by (simp add: EvaluateLagrangePolynomial_def)
qed


theorem EvaluateLagrangePolynomial_contract_witness:
  "length (Roots domain_of_size_2) = unat (Cardinality domain_of_size_2)
   \<and> distinct (Roots domain_of_size_2)
   \<and> EvaluateLagrangePolynomial domain_of_size_2 [5] 0 = Inl ErrPolynomialMismatchedSizeDomain
   \<and> EvaluateLagrangePolynomial domain_of_size_2 [5, 7] (fr_modulus - 1) = Inr 7
   \<and> EvaluateLagrangePolynomial domain_of_size_2 [5, 7] 0 =
       Inr (barycentric_value domain_of_size_2 [5, 7] 0)"
proof -
  have l: "length (Roots domain_of_size_2) = unat (Cardinality domain_of_size_2)"
    by (simp add: domain_of_size_2_def)
  have d: "distinct (Roots domain_of_size_2)"
    using fr_modulus_gt_2 by (simp add: domain_of_size_2_def)
  have out: "0 \<notin> set (Roots domain_of_size_2)"
    using fr_modulus_gt_2 by (simp add: domain_of_size_2_def)
  have c2: "unat (Cardinality domain_of_size_2) = 2"
    by (simp add: domain_of_size_2_def)
  have a: "EvaluateLagrangePolynomial domain_of_size_2 [5] 0 =
           Inl ErrPolynomialMismatchedSizeDomain"
    using EvaluateLagrangePolynomial_contract [OF l d, of "[5]" 0]
    by (simp add: c2)
  have r1: "Roots domain_of_size_2 ! Suc 0 = fr_modulus - 1"
    by (simp add: domain_of_size_2_def)
  have "\<forall>i<length [5, 7 :: fr]. fr_modulus - 1 = Roots domain_of_size_2 ! i \<longrightarrow>
          EvaluateLagrangePolynomial domain_of_size_2 [5, 7] (fr_modulus - 1) = Inr ([5, 7] ! i)"
    using EvaluateLagrangePolynomial_contract [OF l d, of "[5, 7]" "fr_modulus - 1"]
    by (simp add: c2)
  from this [rule_format, of 1]
  have b: "EvaluateLagrangePolynomial domain_of_size_2 [5, 7] (fr_modulus - 1) = Inr 7"
    by (simp add: r1)
  have c: "EvaluateLagrangePolynomial domain_of_size_2 [5, 7] 0 =
           Inr (barycentric_value domain_of_size_2 [5, 7] 0)"
    using EvaluateLagrangePolynomial_contract [OF l d, of "[5, 7]" 0] out
    by (simp add: c2)
  show ?thesis using l d a b c by simp
qed
section \<open>The inverse, and the evaluators on the domain of size 2\<close>


lemma egcd_inverse_invariant:
  "0 \<le> a \<Longrightarrow> 0 \<le> b \<Longrightarrow> m dvd (a - u * x) \<Longrightarrow> m dvd (b - v * x) \<Longrightarrow>
   m dvd (gcd a b - egcd_inverse a b u v * x)"
proof (induction a b u v rule: egcd_inverse.induct)
  case (1 a b u v)
  show ?case
  proof (cases "b \<le> 0")
    case True
    then have "b = 0" using "1.prems"(2) by simp
    then show ?thesis using "1.prems"(1,3) by (subst egcd_inverse.simps) simp
  next
    case False
    then have bpos: "0 < b" by simp
    have "a mod b - (u - (a div b) * v) * x = (a - u * x) - (a div b) * (b - v * x)"
    proof -
      have "a mod b = a - (a div b) * b" by (simp add: minus_div_mult_eq_mod)
      then show ?thesis by (simp add: algebra_simps)
    qed
    then have d: "m dvd (a mod b - (u - (a div b) * v) * x)"
      using "1.prems"(3,4) by (simp add: dvd_diff dvd_mult)
    have "m dvd (gcd b (a mod b) - egcd_inverse b (a mod b) v (u - (a div b) * v) * x)"
      using "1.IH" [OF False] "1.prems"(2,4) bpos d by simp
    moreover have "gcd b (a mod b) = gcd a b"
      by (rule gcd_red_int [symmetric])
    ultimately show ?thesis using False by (subst egcd_inverse.simps) simp
  qed
qed

lemma fr_inverse_unit:
  assumes "0 \<le> x" and "coprime x fr_modulus"
  shows "fr_mul x (fr_inverse x) = 1"
proof -
  have x0: "x \<noteq> 0"
  proof
    assume "x = 0"
    then have "coprime 0 fr_modulus" using assms(2) by simp
    then show False using fr_modulus_gt_2 by simp
  qed
  let ?e = "egcd_inverse fr_modulus x 0 1"
  have "fr_modulus dvd (gcd fr_modulus x - ?e * x)"
    using assms(1) fr_modulus_gt_2 by (intro egcd_inverse_invariant) simp_all
  moreover have "gcd fr_modulus x = 1"
    using assms(2) by (simp add: gcd.commute coprime_iff_gcd_eq_1)
  ultimately have "fr_modulus dvd (1 - ?e * x)" by simp
  then have "(1 - ?e * x) mod fr_modulus = 0" by (simp add: mod_eq_0_iff_dvd)
  then have "(?e * x) mod fr_modulus = 1 mod fr_modulus"
    by (metis mod_eq_dvd_iff mod_eq_0_iff_dvd)
  then have "(x * (?e mod fr_modulus)) mod fr_modulus = 1"
    by (simp add: mod_mult_right_eq mult.commute one_mod_fr_modulus)
  then show ?thesis using x0 by (simp add: fr_mul_def fr_inverse_def)
qed

lemma coprime_of_inverse:
  assumes "(x * y) mod fr_modulus = 1"
  shows "coprime x fr_modulus"
proof -
  have "coprime ((x * y) mod fr_modulus) fr_modulus" using assms by simp
  then have "coprime (x * y) fr_modulus"
    using fr_modulus_gt_2 by (simp add: coprime_mod_left_iff)
  then show ?thesis by simp
qed

lemma fr_inverse_range: "0 \<le> fr_inverse x \<and> fr_inverse x < fr_modulus"
  using fr_modulus_gt_2 by (simp add: fr_inverse_def)

lemma fr_inverse_unique:
  assumes x: "0 \<le> x" and y: "0 \<le> y" "y < fr_modulus" and xy: "(x * y) mod fr_modulus = 1"
  shows "fr_inverse x = y"
proof -
  let ?m = fr_modulus
  let ?i = "fr_inverse x"
  have xi: "(x * ?i) mod ?m = 1"
    using fr_inverse_unit [OF x coprime_of_inverse [OF xy]] by (simp add: fr_mul_def)
  have "?i mod ?m = (?i * ((x * y) mod ?m)) mod ?m" by (simp add: xy)
  also have "\<dots> = (?i * (x * y)) mod ?m" by (simp add: mod_mult_right_eq)
  also have "?i * (x * y) = (x * ?i) * y" by (simp add: mult.commute mult.left_commute)
  also have "((x * ?i) * y) mod ?m = (((x * ?i) mod ?m) * y) mod ?m"
    by (simp add: mod_mult_left_eq)
  also have "\<dots> = y mod ?m" by (simp add: xi)
  finally have "?i mod ?m = y mod ?m" .
  then show ?thesis using fr_inverse_range [of x] y by simp
qed


lemma fr_modulus_odd: "odd fr_modulus"
  by (simp add: fr_modulus_def)

lemma fr_modulus_halves:
  "2 * ((fr_modulus + 1) div 2) = fr_modulus + 1"
  "2 * ((fr_modulus - 1) div 2) = fr_modulus - 1"
  using fr_modulus_odd by presburger+

lemma fr_sub_0_1: "fr_sub 0 1 = fr_modulus - 1"
  using fr_modulus_gt_2 by (simp add: fr_sub_def zmod_minus1)

lemma fr_sub_0_minus_1: "fr_sub 0 (fr_modulus - 1) = 1"
proof -
  have "(0 - (fr_modulus - 1)) mod fr_modulus = (1 - fr_modulus) mod fr_modulus" by simp
  also have "\<dots> = 1 mod fr_modulus" by (simp add: mod_diff_right_eq [symmetric])
  finally show ?thesis by (simp add: fr_sub_def one_mod_fr_modulus)
qed

lemma fr_mul_minus_1_left: "fr_mul (fr_modulus - 1) x = (- x) mod fr_modulus"
proof -
  have "(fr_modulus - 1) * x = - x + x * fr_modulus" by (simp add: algebra_simps)
  then have "((fr_modulus - 1) * x) mod fr_modulus = (- x + x * fr_modulus) mod fr_modulus"
    by (rule arg_cong)
  also have "\<dots> = (- x) mod fr_modulus" by (rule mod_mult_self1)
  finally show ?thesis by (simp only: fr_mul_def)
qed

lemma fr_mul_minus_1_right: "fr_mul x (fr_modulus - 1) = (- x) mod fr_modulus"
  using fr_mul_minus_1_left [of x] by (simp add: fr_mul_def mult.commute)

lemma neg_mod_fr_modulus: "0 < x \<Longrightarrow> x < fr_modulus \<Longrightarrow> (- x) mod fr_modulus = fr_modulus - x"
proof -
  assume x: "0 < x" "x < fr_modulus"
  have "(- x) mod fr_modulus = (fr_modulus - x) mod fr_modulus"
    by (metis (no_types) mod_add_self2 uminus_add_conv_diff)
  also have "\<dots> = fr_modulus - x"
    by (rule mod_pos_pos_trivial) (use x in simp_all)
  finally show ?thesis .
qed

lemma fr_inverse_0: "fr_inverse 0 = 0"
  by (simp add: fr_inverse_def)

lemma fr_inverse_1: "fr_inverse 1 = 1"
  using fr_modulus_gt_2 by (intro fr_inverse_unique) (simp_all add: one_mod_fr_modulus)

lemma fr_inverse_minus_1: "fr_inverse (fr_modulus - 1) = fr_modulus - 1"
proof (rule fr_inverse_unique)
  show "0 \<le> fr_modulus - 1" "0 \<le> fr_modulus - 1" "fr_modulus - 1 < fr_modulus"
    using fr_modulus_gt_2 by simp_all
  have "fr_mul (fr_modulus - 1) (fr_modulus - 1) = (- (fr_modulus - 1)) mod fr_modulus"
    by (rule fr_mul_minus_1_left)
  also have "\<dots> = 1"
    using neg_mod_fr_modulus [of "fr_modulus - 1"] fr_modulus_gt_2 by simp
  finally show "(fr_modulus - 1) * (fr_modulus - 1) mod fr_modulus = 1"
    by (simp add: fr_mul_def)
qed

lemma batch_panics_on_first_root:
  assumes len: "length (Roots d) = unat (Cardinality d)"
    and pos: "0 < unat (Cardinality d)" and small: "unat (Cardinality d) < 2 ^ 63"
  shows "EvaluateLagrangePolynomials d [poly] [Roots d ! 0] = Inl PanicIndexOutOfRange"
proof -
  let ?n = "unat (Cardinality d)"
  have c: "nat (sint (Cardinality d)) = ?n"
    using sint_of_small [OF small] by simp
  have fr: "findRootIndex d (Roots d ! 0) = Inr 0"
    unfolding findRootIndex_def
    using findRootIndex_from_first [of d 0 0 "Roots d ! 0"] len pos c by simp
  have upt: "[0..<?n] = 0 # [Suc 0..<?n]"
    using pos by (simp add: upt_conv_Cons)
  have r0: "get_at (Roots d) 0 = Inr (Roots d ! 0)"
    using len pos by (simp add: get_at_def)
  show ?thesis
    unfolding EvaluateLagrangePolynomials_def
    by (simp add: fr c upt r0 get_at_def set_at_def make_slice_def Let_def)
qed


lemma domain_of_size_2_sel:
  "Cardinality domain_of_size_2 = 2"
  "CardinalityInv domain_of_size_2 = (fr_modulus + 1) div 2"
  "Roots domain_of_size_2 = [1, fr_modulus - 1]"
  by (simp_all add: domain_of_size_2_def)

lemma findRootIndex_size_2_zero: "findRootIndex domain_of_size_2 0 = Inr (- 1)"
  using fr_modulus_gt_2
  by (intro findRootIndex_outside) (simp_all add: domain_of_size_2_sel)

lemma fr_half_range:
  "0 < (fr_modulus + 1) div 2" "(fr_modulus + 1) div 2 < fr_modulus"
  "0 < (fr_modulus - 1) div 2" "(fr_modulus - 1) div 2 < fr_modulus"
  "fr_modulus - (fr_modulus + 1) div 2 = (fr_modulus - 1) div 2"
  "fr_modulus - (fr_modulus - 1) div 2 = (fr_modulus + 1) div 2"
  using fr_modulus_gt_2 fr_modulus_halves by linarith+

lemma scale_size_2_zero:
  "scale_by_vanishing domain_of_size_2 0 r = fr_mul ((fr_modulus - 1) div 2) r"
proof -
  have "fr_exp 0 (sint (2 :: 64 word)) = 0"
    using fr_exp_nat [of 0 2] by simp
  moreover have "fr_mul (fr_modulus - 1) ((fr_modulus + 1) div 2) = (fr_modulus - 1) div 2"
    using neg_mod_fr_modulus [of "(fr_modulus + 1) div 2"] fr_half_range
    by (simp add: fr_mul_minus_1_left)
  ultimately show ?thesis
    by (simp add: scale_by_vanishing_def Let_def domain_of_size_2_sel fr_sub_0_1)
qed

lemma fr_small_products:
  "fr_mul 0 x = 0" "fr_mul x 0 = 0" "fr_mul 1 (fr_modulus - 1) = fr_modulus - 1"
  "fr_mul (fr_modulus - 1) 1 = fr_modulus - 1"
  "fr_mul (fr_modulus - 1) (fr_modulus - 1) = 1"
  "fr_add 0 0 = 0" "fr_add 0 1 = 1" "fr_add 0 (fr_modulus - 1) = fr_modulus - 1"
  "fr_mul ((fr_modulus - 1) div 2) 1 = (fr_modulus - 1) div 2"
  "fr_mul ((fr_modulus - 1) div 2) (fr_modulus - 1) = (fr_modulus + 1) div 2"
proof -
  show "fr_mul 0 x = 0" "fr_mul x 0 = 0" "fr_add 0 0 = 0"
    by (simp_all add: fr_mul_def fr_add_def)
  have m1: "(- 1) mod fr_modulus = fr_modulus - 1"
    using fr_modulus_gt_2 by (simp add: zmod_minus1)
  show "fr_mul 1 (fr_modulus - 1) = fr_modulus - 1" "fr_mul (fr_modulus - 1) 1 = fr_modulus - 1"
    "fr_add 0 (fr_modulus - 1) = fr_modulus - 1" "fr_add 0 1 = 1"
    by (simp_all add: fr_mul_def fr_add_def m1 one_mod_fr_modulus)
  show "fr_mul (fr_modulus - 1) (fr_modulus - 1) = 1"
    using neg_mod_fr_modulus [of "fr_modulus - 1"] fr_modulus_gt_2
    by (simp add: fr_mul_minus_1_left)
  show "fr_mul ((fr_modulus - 1) div 2) 1 = (fr_modulus - 1) div 2"
    using fr_half_range by (simp add: fr_mul_def)
  show "fr_mul ((fr_modulus - 1) div 2) (fr_modulus - 1) = (fr_modulus + 1) div 2"
    using neg_mod_fr_modulus [of "(fr_modulus - 1) div 2"] fr_half_range
    by (simp add: fr_mul_minus_1_right)
qed

lemma upt_0_2: "[0..<2] = [0, Suc 0]"
  by (simp add: upt_rec numeral_2_eq_2)

lemma replicate_small:
  "replicate 2 x = [x, x]" "replicate 4 x = [x, x, x, x]"
  by (simp_all add: numeral_eq_Suc)

lemma make_slice_small:
  "make_slice 2 = Inr [0, 0]" "make_slice 4 = Inr [0, 0, 0, 0]" "make_slice 0 = Inr []"
  by (simp_all add: make_slice_def replicate_small)

lemma batch_result_at_size_2:
  "EvaluateLagrangePolynomials domain_of_size_2 [[0, 1], [0, 0]] [0, 0] =
     Inr [(fr_modulus - 1) div 2, 0]"
  unfolding EvaluateLagrangePolynomials_def
  by (simp add: findRootIndex_size_2_zero scale_size_2_zero domain_of_size_2_sel upt_0_2
      get_at_def set_at_def make_slice_small BatchInvert_def Let_def
      fr_sub_0_1 fr_sub_0_minus_1 fr_inverse_0 fr_inverse_1 fr_inverse_minus_1
      fr_small_products)

lemma single_result_at_size_2:
  "EvaluateLagrangePolynomial domain_of_size_2 [0, 1] 0 = Inr ((fr_modulus + 1) div 2)"
  unfolding EvaluateLagrangePolynomial_def evaluateLagrangePolynomial_def
  by (simp add: findRootIndex_size_2_zero scale_size_2_zero domain_of_size_2_sel upt_0_2
      get_at_def set_at_def make_slice_small BatchInvert_def Let_def
      fr_sub_0_1 fr_sub_0_minus_1 fr_inverse_0 fr_inverse_1 fr_inverse_minus_1
      fr_small_products)


text \<open>
  C1. The batched evaluator does not return what the single evaluator returns. On the
  domain of size 2 (roots 1 and -1), for the polynomials \<open>[0, 1]\<close> and \<open>[0, 0]\<close>, both
  evaluated at 0, which is no root: \<open>EvaluateLagrangePolynomials\<close> returns
  \<open>(fr_modulus - 1) / 2\<close> for the first pair, \<open>EvaluateLagrangePolynomial\<close> returns
  \<open>(fr_modulus + 1) / 2\<close>, the value one half of the polynomial at 0.
\<close>

theorem batch_differs_from_single:
  "EvaluateLagrangePolynomials domain_of_size_2 [[0, 1], [0, 0]] [0, 0] =
     Inr [(fr_modulus - 1) div 2, 0]
   \<and> EvaluateLagrangePolynomial domain_of_size_2 [0, 1] 0 = Inr ((fr_modulus + 1) div 2)
   \<and> EvaluateLagrangePolynomial domain_of_size_2 [0, 0] 0 = Inr 0
   \<and> (fr_modulus - 1) div 2 \<noteq> (fr_modulus + 1) div 2"
proof -
  have "EvaluateLagrangePolynomial domain_of_size_2 [0, 0] 0 = Inr 0"
    unfolding EvaluateLagrangePolynomial_def evaluateLagrangePolynomial_def
    by (simp add: findRootIndex_size_2_zero scale_size_2_zero domain_of_size_2_sel upt_0_2
        get_at_def set_at_def make_slice_small BatchInvert_def Let_def
        fr_sub_0_1 fr_sub_0_minus_1 fr_inverse_0 fr_inverse_1 fr_inverse_minus_1
        fr_small_products)
  moreover have "(fr_modulus - 1) div 2 \<noteq> (fr_modulus + 1) div 2"
    using fr_modulus_halves by linarith
  ultimately show ?thesis
    using batch_result_at_size_2 single_result_at_size_2 by simp
qed

text \<open>
  C2. The batched evaluator aborts on an input of the stated shape. On the domain of size 2,
  for the one polynomial \<open>[5, 7]\<close> evaluated at the root 1, the slice of denominators is
  made with length 0 and the first write to it is out of range, while the single evaluator
  returns \<open>poly[0]\<close>.
\<close>

theorem batch_panics_at_domain_point:
  "EvaluateLagrangePolynomials domain_of_size_2 [[5, 7]] [1] = Inl PanicIndexOutOfRange
   \<and> EvaluateLagrangePolynomial domain_of_size_2 [5, 7] 1 = Inr 5"
proof -
  have "EvaluateLagrangePolynomials domain_of_size_2 [[5, 7]] [Roots domain_of_size_2 ! 0] =
        Inl PanicIndexOutOfRange"
    by (rule batch_panics_on_first_root) (simp_all add: domain_of_size_2_sel)
  moreover have "findRootIndex domain_of_size_2 1 = Inr 0"
    using findRootIndex_from_first [of domain_of_size_2 0 0 1]
    by (simp add: findRootIndex_def domain_of_size_2_sel)
  then have "EvaluateLagrangePolynomial domain_of_size_2 [5, 7] 1 = Inr 5"
    by (simp add: EvaluateLagrangePolynomial_def evaluateLagrangePolynomial_def
        domain_of_size_2_sel get_at_def)
  ultimately show ?thesis by (simp add: domain_of_size_2_sel)
qed
section \<open>Properties of NextPowerOfTwo and NewDomain\<close>


lemma ones_count_eq_0_iff: "ones_count k = 0 \<longleftrightarrow> k = 0"
proof (induction k rule: ones_count.induct)
  case (1 k)
  show ?case
  proof (cases "k = 0")
    case True
    then show ?thesis by (subst ones_count.simps) simp
  next
    case False
    have "ones_count k = k mod 2 + ones_count (k div 2)"
      using False by (subst ones_count.simps) simp
    moreover have "ones_count (k div 2) = 0 \<longleftrightarrow> k div 2 = 0" using "1.IH" [OF False] .
    ultimately show ?thesis using False by (auto simp: div_eq_0_iff)
  qed
qed

lemma ones_count_eq_1_iff: "ones_count k = 1 \<longleftrightarrow> (\<exists>j. k = 2 ^ j)"
proof (induction k rule: ones_count.induct)
  case (1 k)
  show ?case
  proof (cases "k = 0")
    case True
    then show ?thesis by (subst ones_count.simps) simp
  next
    case False
    have oc: "ones_count k = k mod 2 + ones_count (k div 2)"
      using False by (subst ones_count.simps) simp
    note IH = "1.IH" [OF False]
    show ?thesis
    proof (cases "even k")
      case True
      then have "ones_count k = ones_count (k div 2)" using oc by simp
      moreover have "(\<exists>j. k div 2 = 2 ^ j) \<longleftrightarrow> (\<exists>j. k = 2 ^ j)"
      proof
        assume "\<exists>j. k div 2 = 2 ^ j"
        then obtain j where "k div 2 = 2 ^ j" by blast
        then have "k = 2 ^ Suc j" using True by auto
        then show "\<exists>j. k = 2 ^ j" by blast
      next
        assume "\<exists>j. k = 2 ^ j"
        then obtain j where j: "k = 2 ^ j" by blast
        then have "j \<noteq> 0" using True by (cases j) auto
        then obtain i where "j = Suc i" by (cases j) auto
        then have "k div 2 = 2 ^ i" using j by simp
        then show "\<exists>j. k div 2 = 2 ^ j" by blast
      qed
      ultimately show ?thesis using IH by simp
    next
      case odd: False
      then have k2: "k mod 2 = 1" by presburger
      have "ones_count k = 1 \<longleftrightarrow> k div 2 = 0"
        using oc k2 ones_count_eq_0_iff [of "k div 2"] by simp
      also have "\<dots> \<longleftrightarrow> k = 1" using odd False by presburger
      also have "\<dots> \<longleftrightarrow> (\<exists>j. k = 2 ^ j)"
      proof
        assume "k = 1"
        then have "k = 2 ^ 0" by simp
        then show "\<exists>j. k = 2 ^ j" by blast
      next
        assume "\<exists>j. k = 2 ^ j"
        then obtain j where j: "k = 2 ^ j" by blast
        then show "k = 1" using odd by (cases j) auto
      qed
      finally show ?thesis .
    qed
  qed
qed

lemma bit_length_bounds:
  "0 < k \<Longrightarrow> 2 ^ (bit_length k - 1) \<le> k \<and> k < 2 ^ bit_length k"
proof (induction k rule: bit_length.induct)
  case (1 k)
  then have k0: "k \<noteq> 0" by simp
  have bl: "bit_length k = Suc (bit_length (k div 2))"
    using k0 by (subst bit_length.simps) simp
  show ?case
  proof (cases "k div 2 = 0")
    case True
    then have "k = 1" using "1.prems" by presburger
    moreover have "bit_length (k div 2) = 0" using True by (subst bit_length.simps) simp
    ultimately show ?thesis using bl by simp
  next
    case False
    then have "0 < k div 2" by simp
    then have IH: "2 ^ (bit_length (k div 2) - 1) \<le> k div 2" "k div 2 < 2 ^ bit_length (k div 2)"
      using "1.IH" [OF k0] by simp_all
    have pos: "0 < bit_length (k div 2)"
      using False by (subst bit_length.simps) simp
    then obtain b where b: "bit_length (k div 2) = Suc b" by (cases "bit_length (k div 2)") auto
    have "2 * 2 ^ b \<le> k" using IH(1) b by simp
    moreover have "k < 2 * 2 ^ Suc b" using IH(2) b by simp
    ultimately show ?thesis using bl b by simp
  qed
qed

lemma trailing_zeros_power: "trailing_zeros (2 ^ j) = j"
proof (induction j)
  case 0
  show ?case by (subst trailing_zeros.simps) simp
next
  case (Suc j)
  have "trailing_zeros (2 ^ Suc j) = Suc (trailing_zeros (2 ^ Suc j div 2))"
    by (subst trailing_zeros.simps) simp
  then show ?case using Suc by simp
qed


lemma unat_power_2:
  assumes "j < 64"
  shows "unat (2 ^ j :: 64 word) = 2 ^ j"
proof -
  have "(2::nat) ^ j < 2 ^ 64" using assms by (rule power_strict_increasing) simp
  then have "unat (of_nat (2 ^ j) :: 64 word) = 2 ^ j"
    by (intro of_nat_inverse [OF refl]) simp
  then show ?thesis by simp
qed

lemma NextPowerOfTwo_rounds_up:
  assumes X: "X = 2 ^ k" and le: "unat m \<le> X" and least: "\<forall>j. unat m \<le> 2 ^ j \<longrightarrow> X \<le> 2 ^ j"
  shows "NextPowerOfTwo m = (if k < 64 then Inr (2 ^ k) else Inl PanicNextPowerOfTwoOverflow)"
proof -
  let ?n = "unat m"
  have n64: "?n < 2 ^ 64" using unsigned_less [of m, where 'a=nat] by simp
  have n64': "?n \<le> 2 ^ 64" using n64 by simp
  have k64: "k \<le> 64"
  proof -
    have "X \<le> 2 ^ 64" using least n64' by blast
    then have "(2::nat) ^ k \<le> 2 ^ 64" using X by simp
    then show ?thesis by (rule power_le_imp_le_exp [rotated]) simp
  qed
  consider (zero) "?n = 0" | (pow) j where "?n = 2 ^ j" | (other) "?n \<noteq> 0" "\<nexists>j. ?n = 2 ^ j"
    by blast
  then show ?thesis
  proof cases
    case zero
    have "?n \<le> 2 ^ 0" using zero by simp
    then have "X \<le> 2 ^ 0" using least by blast
    then have "(2::nat) ^ k \<le> 2 ^ 0" using X by simp
    then have "k \<le> 0" by (rule power_le_imp_le_exp [rotated]) simp
    then have "k = 0" by simp
    moreover have "ones_count ?n = 0" using zero by (simp add: ones_count_eq_0_iff)
    ultimately show ?thesis
      by (simp add: NextPowerOfTwo_def OnesCount64_def)
  next
    case (pow j)
    have "?n \<le> 2 ^ j" using pow by simp
    then have "X \<le> 2 ^ j" using least by blast
    then have "X = 2 ^ j" using le pow by simp
    then have kj: "k = j" using X by simp
    have "(2::nat) ^ j < 2 ^ 64" using pow n64 by simp
    then have j64: "j < 64" by (rule power_less_imp_less_exp [rotated]) simp
    have "m = of_nat (unat m)" by simp
    also have "\<dots> = of_nat (2 ^ j)" using pow by (rule arg_cong)
    finally have m: "m = 2 ^ j" by simp
    have "ones_count ?n = 1" using pow ones_count_eq_1_iff by blast
    then show ?thesis
      using kj j64 m by (simp add: NextPowerOfTwo_def OnesCount64_def)
  next
    case other
    let ?L = "bit_length ?n"
    have c0: "ones_count ?n \<noteq> 0" using other(1) by (simp add: ones_count_eq_0_iff)
    have c1: "ones_count ?n \<noteq> 1" using other(2) ones_count_eq_1_iff [of ?n] by blast
    have b: "2 ^ (?L - 1) \<le> ?n" "?n < 2 ^ ?L"
      using bit_length_bounds [of ?n] other(1) by simp_all
    have "?n \<noteq> 2 ^ (?L - 1)" using other(2) by blast
    then have strict: "2 ^ (?L - 1) < ?n" using b(1) by simp
    have "?n \<le> 2 ^ ?L" using b(2) by simp
    then have "X \<le> 2 ^ ?L" using least by blast
    then have "(2::nat) ^ k \<le> 2 ^ ?L" using X by simp
    then have kL: "k \<le> ?L" by (rule power_le_imp_le_exp [rotated]) simp
    have "?n \<le> 2 ^ k" using le X by simp
    with strict have "(2::nat) ^ (?L - 1) < 2 ^ k" by (rule less_le_trans)
    then have "?L - 1 < k" by (rule power_less_imp_less_exp [rotated]) simp
    then have k: "k = ?L" using kL by simp
    have "LeadingZeros64 m = 0 \<longleftrightarrow> \<not> k < 64"
      using k k64 by (auto simp: LeadingZeros64_def)
    moreover have "64 - LeadingZeros64 m = k"
      using k k64 by (simp add: LeadingZeros64_def)
    ultimately show ?thesis
      using c0 c1 by (simp add: NextPowerOfTwo_def OnesCount64_def Let_def del: One_nat_def)
  qed
qed

lemma TrailingZeros64_power_2:
  assumes "j < 64"
  shows "TrailingZeros64 (2 ^ j) = j"
proof -
  have u: "unat (2 ^ j :: 64 word) = 2 ^ j" by (rule unat_power_2 [OF assms])
  have "(2 ^ j :: 64 word) \<noteq> 0"
  proof
    assume "(2 ^ j :: 64 word) = 0"
    then have "unat (2 ^ j :: 64 word) = unat (0 :: 64 word)" by (rule arg_cong)
    then show False using u by (simp only: unat_0) simp
  qed
  then show ?thesis by (simp add: TrailingZeros64_def u trailing_zeros_power)
qed


lemma roots_fold:
  "n \<le> x \<Longrightarrow>
   fold (\<lambda>i (roots, current). (roots[i := current], fr_mul current g)) [0..<n]
     (replicate x 0, 1) =
   (map (\<lambda>i. g ^ i mod fr_modulus) [0..<n] @ replicate (x - n) 0, g ^ n mod fr_modulus)"
proof (induction n)
  case 0
  show ?case by (simp add: one_mod_fr_modulus)
next
  case (Suc n)
  have upd: "(map (\<lambda>i. g ^ i mod fr_modulus) [0..<n] @ replicate (x - n) 0)
               [n := g ^ n mod fr_modulus] =
             map (\<lambda>i. g ^ i mod fr_modulus) [0..<Suc n] @ replicate (x - Suc n) 0"
    using Suc.prems
    by (intro nth_equalityI) (auto simp: nth_append nth_list_update less_Suc_eq)
  have "fr_mul (g ^ n mod fr_modulus) g = (g ^ n * g) mod fr_modulus"
    unfolding fr_mul_def by (rule mod_mult_left_eq)
  also have "g ^ n * g = g ^ Suc n" by simp
  finally have cur: "fr_mul (g ^ n mod fr_modulus) g = g ^ Suc n mod fr_modulus" .
  show ?case
    using Suc upd cur by (simp del: upt_Suc add: upt_Suc_append)
qed

lemma NewDomain_roots_eq:
  "NewDomain_roots g x = map (\<lambda>i. g ^ i mod fr_modulus) [0..<x]"
  using roots_fold [of x x g] by (simp add: NewDomain_roots_def)

lemma inverses_fold:
  "n \<le> x \<Longrightarrow>
   fold (\<lambda>i inverses. inverses[i := fr_inverse (roots ! i)]) [0..<n] (replicate x 0) =
   map (\<lambda>i. fr_inverse (roots ! i)) [0..<n] @ replicate (x - n) 0"
proof (induction n)
  case 0
  show ?case by simp
next
  case (Suc n)
  have "(map (\<lambda>i. fr_inverse (roots ! i)) [0..<n] @ replicate (x - n) 0)
          [n := fr_inverse (roots ! n)] =
        map (\<lambda>i. fr_inverse (roots ! i)) [0..<Suc n] @ replicate (x - Suc n) 0"
    using Suc.prems
    by (intro nth_equalityI) (auto simp: nth_append nth_list_update less_Suc_eq)
  then show ?case
    using Suc by (simp del: upt_Suc add: upt_Suc_append)
qed

lemma NewDomain_inverses_eq:
  "NewDomain_inverses roots x = map (\<lambda>i. fr_inverse (roots ! i)) [0..<x]"
  using inverses_fold [of x x roots] by (simp add: NewDomain_inverses_def)

lemma rootOfUnity_unit: "coprime rootOfUnity fr_modulus"
proof (rule coprime_of_inverse)
  let ?y = "2361660012179324004544952053205906600198439069793331036989202475535180077688 :: int"
  let ?q = "461119645006774830089464521560850798033070112358751633476793783874355530279 :: int"
  have "rootOfUnity * ?y = 1 + ?q * fr_modulus"
    unfolding rootOfUnity_def fr_modulus_def by simp
  then have "(rootOfUnity * ?y) mod fr_modulus = (1 + ?q * fr_modulus) mod fr_modulus"
    by (rule arg_cong)
  also have "\<dots> = 1 mod fr_modulus" by (rule mod_mult_self1)
  finally show "rootOfUnity * ?y mod fr_modulus = 1" by (simp only: one_mod_fr_modulus)
qed

lemma root_power_unit:
  "fr_mul ((rootOfUnity ^ e mod fr_modulus) ^ i mod fr_modulus)
     (fr_inverse ((rootOfUnity ^ e mod fr_modulus) ^ i mod fr_modulus)) = 1"
proof (rule fr_inverse_unit)
  show "0 \<le> (rootOfUnity ^ e mod fr_modulus) ^ i mod fr_modulus"
    using fr_modulus_gt_2 by simp
  have nz: "fr_modulus \<noteq> 0" using fr_modulus_gt_2 by simp
  have "coprime (rootOfUnity ^ e) fr_modulus"
    using rootOfUnity_unit by simp
  then have "coprime (rootOfUnity ^ e mod fr_modulus) fr_modulus"
    using coprime_mod_left_iff [OF nz, of "rootOfUnity ^ e"] by blast
  then have "coprime ((rootOfUnity ^ e mod fr_modulus) ^ i) fr_modulus"
    by simp
  then show "coprime ((rootOfUnity ^ e mod fr_modulus) ^ i mod fr_modulus) fr_modulus"
    using coprime_mod_left_iff [OF nz, of "(rootOfUnity ^ e mod fr_modulus) ^ i"] by blast
qed


lemma NewDomain_success:
  assumes k: "k \<le> 32" and np: "NextPowerOfTwo m = Inr (2 ^ k)"
  shows "\<exists>d. NewDomain m = Inr d \<and> unat (Cardinality d) = 2 ^ k \<and> length (Roots d) = 2 ^ k
           \<and> Roots d ! 0 = 1
           \<and> (\<forall>i. 0 < i \<and> i < 2 ^ k \<longrightarrow> Roots d ! i = fr_mul (Roots d ! (i - 1)) (Generator d))
           \<and> length (PreComputedInverses d) = 2 ^ k
           \<and> (\<forall>i<2 ^ k. PreComputedInverses d ! i = fr_inverse (Roots d ! i)
                        \<and> fr_mul (Roots d ! i) (PreComputedInverses d ! i) = 1)"
proof -
  let ?x = "2 ^ k :: 64 word"
  let ?e = "2 ^ (32 - k) :: nat"
  let ?g = "rootOfUnity ^ ?e mod fr_modulus"
  let ?roots = "map (\<lambda>i. ?g ^ i mod fr_modulus) [0..<2 ^ k]"
  let ?d = "\<lparr>Cardinality = ?x,
             CardinalityInv = fr_inverse (uint ?x mod fr_modulus),
             Generator = ?g,
             GeneratorInv = fr_inverse ?g,
             Roots = ?roots,
             PreComputedInverses = map (\<lambda>i. fr_inverse (?roots ! i)) [0..<2 ^ k]\<rparr>"
  have k64: "k < 64" using k by simp
  have tz: "TrailingZeros64 ?x = k" by (rule TrailingZeros64_power_2 [OF k64])
  have ux: "unat ?x = 2 ^ k" by (rule unat_power_2 [OF k64])
  have ue: "unat (2 ^ (32 - k) :: 64 word) = ?e" by (rule unat_power_2) simp
  have "?e \<le> 2 ^ 32" by (rule power_increasing) simp_all
  then have "unat (2 ^ (32 - k) :: 64 word) < 2 ^ 63" using ue by simp
  then have se: "sint (2 ^ (32 - k) :: 64 word) = int ?e"
    using sint_of_small [of "2 ^ (32 - k)"] ue by simp
  have gen: "fr_exp rootOfUnity (sint (2 ^ (32 - k) :: 64 word)) = ?g"
    unfolding se by (rule fr_exp_nat)
  have nd: "NewDomain m = Inr ?d"
    using k by (simp add: NewDomain_def np tz maxOrderRoot_def Let_def gen ux
        NewDomain_roots_eq NewDomain_inverses_eq)
  have pos: "(0::nat) < 2 ^ k" by simp
  have r0: "?roots ! 0 = 1"
    using pos by (simp add: one_mod_fr_modulus del: upt_Suc)
  have step: "?roots ! i = fr_mul (?roots ! (i - 1)) ?g" if i0: "0 < i" and ik: "i < 2 ^ k" for i
  proof -
    from i0 obtain j where j: "i = Suc j" by (cases i) auto
    have "fr_mul (?g ^ j mod fr_modulus) ?g = (?g ^ j * ?g) mod fr_modulus"
      unfolding fr_mul_def by (rule mod_mult_left_eq)
    also have "?g ^ j * ?g = ?g ^ Suc j" by simp
    finally show ?thesis using ik j by (simp del: upt_Suc power_Suc)
  qed
  have inv: "PreComputedInverses ?d ! i = fr_inverse (Roots ?d ! i)
             \<and> fr_mul (Roots ?d ! i) (PreComputedInverses ?d ! i) = 1" if "i < 2 ^ k" for i
    using that root_power_unit [of ?e i] by (simp del: upt_Suc)
  show ?thesis
  proof (intro exI [of _ ?d] conjI allI impI)
    show "NewDomain m = Inr ?d" by (rule nd)
    show "unat (Cardinality ?d) = 2 ^ k" using ux by simp
    show "length (Roots ?d) = 2 ^ k" by simp
    show "Roots ?d ! 0 = 1" using r0 by simp
    show "Roots ?d ! i = fr_mul (Roots ?d ! (i - 1)) (Generator ?d)" if "0 < i \<and> i < 2 ^ k" for i
      using step [of i] that by simp
    show "length (PreComputedInverses ?d) = 2 ^ k" by simp
    show "PreComputedInverses ?d ! i = fr_inverse (Roots ?d ! i)" if "i < 2 ^ k" for i
      using inv [OF that] by blast
    show "fr_mul (Roots ?d ! i) (PreComputedInverses ?d ! i) = 1" if "i < 2 ^ k" for i
      using inv [OF that] by blast
  qed
qed

text \<open>
  C6. Let \<open>X\<close> be the size \<open>m\<close> rounded up to the next power of two (the least power of
  two that is at least \<open>m\<close>). When \<open>X\<close> exceeds \<open>2^32\<close>, \<open>NewDomain m\<close> panics. When
  \<open>X\<close> is at most \<open>2^32\<close>, sizes 0 and 1 included, it returns a domain of cardinality
  \<open>X\<close> with \<open>X\<close> roots, \<open>Roots[0] = 1\<close> and \<open>Roots[i] = Roots[i-1] * Generator\<close> for
  \<open>0 < i < X\<close>, and with \<open>X\<close> precomputed inverses, the \<open>i\<close>-th being the library's
  inverse of the \<open>i\<close>-th root and their product being 1.
\<close>

theorem NewDomain_contract:
  assumes "X = 2 ^ k" and "unat m \<le> X" and "\<forall>j. unat m \<le> 2 ^ j \<longrightarrow> X \<le> 2 ^ j"
  shows "(2 ^ 32 < X \<longrightarrow>
            NewDomain m = Inl (if X < 2 ^ 64 then PanicRootOfUnityMissing
                               else PanicNextPowerOfTwoOverflow))
       \<and> (X \<le> 2 ^ 32 \<longrightarrow>
            (\<exists>d. NewDomain m = Inr d \<and> unat (Cardinality d) = X \<and> length (Roots d) = X
               \<and> Roots d ! 0 = 1
               \<and> (\<forall>i. 0 < i \<and> i < X \<longrightarrow> Roots d ! i = fr_mul (Roots d ! (i - 1)) (Generator d))
               \<and> length (PreComputedInverses d) = X
               \<and> (\<forall>i<X. PreComputedInverses d ! i = fr_inverse (Roots d ! i)
                          \<and> fr_mul (Roots d ! i) (PreComputedInverses d ! i) = 1)))"
proof (intro conjI impI)
  note np = NextPowerOfTwo_rounds_up [OF assms]
  {
    assume big: "2 ^ 32 < X"
    then have "(2::nat) ^ 32 < 2 ^ k" using assms(1) by simp
    then have k32: "32 < k" by (rule power_less_imp_less_exp [rotated]) simp
    show "NewDomain m = Inl (if X < 2 ^ 64 then PanicRootOfUnityMissing
                              else PanicNextPowerOfTwoOverflow)"
    proof (cases "k < 64")
      case True
      then have "(2::nat) ^ k < 2 ^ 64" by (rule power_strict_increasing) simp
      then have "X < 2 ^ 64" using assms(1) by simp
      moreover have "NewDomain m = Inl PanicRootOfUnityMissing"
        using np True k32
        by (simp add: NewDomain_def TrailingZeros64_power_2 maxOrderRoot_def Let_def)
      ultimately show ?thesis by simp
    next
      case False
      then have "(2::nat) ^ 64 \<le> 2 ^ k" by (intro power_increasing) simp_all
      then have "\<not> X < 2 ^ 64" using assms(1) by simp
      moreover have "NewDomain m = Inl PanicNextPowerOfTwoOverflow"
        using np False by (simp add: NewDomain_def)
      ultimately show ?thesis by simp
    qed
  }
  {
    assume small: "X \<le> 2 ^ 32"
    then have "(2::nat) ^ k \<le> 2 ^ 32" using assms(1) by simp
    then have k32: "k \<le> 32" by (rule power_le_imp_le_exp [rotated]) simp
    then have "NextPowerOfTwo m = Inr (2 ^ k)" using np by simp
    from NewDomain_success [OF k32 this]
    show "\<exists>d. NewDomain m = Inr d \<and> unat (Cardinality d) = X \<and> length (Roots d) = X
               \<and> Roots d ! 0 = 1
               \<and> (\<forall>i. 0 < i \<and> i < X \<longrightarrow> Roots d ! i = fr_mul (Roots d ! (i - 1)) (Generator d))
               \<and> length (PreComputedInverses d) = X
               \<and> (\<forall>i<X. PreComputedInverses d ! i = fr_inverse (Roots d ! i)
                          \<and> fr_mul (Roots d ! i) (PreComputedInverses d ! i) = 1)"
      unfolding assms(1) .
  }
qed


theorem NewDomain_contract_witness:
  "(\<exists>d. NewDomain 3 = Inr d \<and> unat (Cardinality d) = 4 \<and> length (Roots d) = 4
        \<and> Roots d ! 0 = 1 \<and> length (PreComputedInverses d) = 4)
   \<and> (\<exists>d. NewDomain 0 = Inr d \<and> unat (Cardinality d) = 1 \<and> length (Roots d) = 1
        \<and> Roots d ! 0 = 1)
   \<and> (\<exists>d. NewDomain 1 = Inr d \<and> unat (Cardinality d) = 1 \<and> length (Roots d) = 1
        \<and> Roots d ! 0 = 1)
   \<and> NewDomain (2 ^ 33) = Inl PanicRootOfUnityMissing"
proof -
  have l3: "\<forall>j. unat (3 :: 64 word) \<le> 2 ^ j \<longrightarrow> (4::nat) \<le> 2 ^ j"
  proof (intro allI impI)
    fix j :: nat
    assume a: "unat (3 :: 64 word) \<le> 2 ^ j"
    have "2 \<le> j"
    proof (rule ccontr)
      assume "\<not> 2 \<le> j"
      then have "j = 0 \<or> j = 1" by auto
      then show False using a by auto
    qed
    then have "(2::nat) ^ 2 \<le> 2 ^ j" by (intro power_increasing) simp_all
    then show "(4::nat) \<le> 2 ^ j" by simp
  qed
  have a: "\<exists>d. NewDomain 3 = Inr d \<and> unat (Cardinality d) = 4 \<and> length (Roots d) = 4
        \<and> Roots d ! 0 = 1 \<and> length (PreComputedInverses d) = 4"
    using NewDomain_contract [of 4 2 3] l3 by auto
  have b: "\<exists>d. NewDomain 0 = Inr d \<and> unat (Cardinality d) = 1 \<and> length (Roots d) = 1
        \<and> Roots d ! 0 = 1"
    using NewDomain_contract [of 1 0 0] by auto
  have c: "\<exists>d. NewDomain 1 = Inr d \<and> unat (Cardinality d) = 1 \<and> length (Roots d) = 1
        \<and> Roots d ! 0 = 1"
    using NewDomain_contract [of 1 0 1] by auto
  have u33: "unat (2 ^ 33 :: 64 word) = 2 ^ 33" by (rule unat_power_2) simp
  have d: "NewDomain (2 ^ 33) = Inl PanicRootOfUnityMissing"
    using NewDomain_contract [of "2 ^ 33" 33 "2 ^ 33"] u33 by simp
  show ?thesis using a b c d by blast
qed

section \<open>Properties of bitReverse and ReverseRoots\<close>


lemma for_each_cong:
  "(\<And>i s. i \<in> set idx \<Longrightarrow> body i s = body' i s) \<Longrightarrow>
   for_each idx body s = for_each idx body' s"
proof (induction idx arbitrary: s)
  case Nil
  show ?case by simp
next
  case (Cons i idx)
  have "body i s = body' i s" using Cons.prems by simp
  moreover have "for_each idx body t = for_each idx body' t" for t
    using Cons.IH Cons.prems by simp
  then have "for_each idx body = for_each idx body'" by (intro ext)
  ultimately show ?case by simp
qed

lemma bit_small_nat:
  fixes i :: nat
  assumes "i < 2 ^ k" and "bit i n"
  shows "n < k"
proof (rule ccontr)
  assume "\<not> n < k"
  then have "k \<le> n" by simp
  have "take_bit k i = i" using assms(1) by (simp add: take_bit_nat_eq_self_iff)
  then have "bit (take_bit k i) n" using assms(2) by simp
  then show False using \<open>\<not> n < k\<close> by (simp add: bit_take_bit_iff)
qed

lemma bit_reversed_index:
  fixes w :: "64 word"
  assumes "k \<le> 64"
  shows "bit (drop_bit (64 - k) (word_reverse w)) n \<longleftrightarrow> n < k \<and> bit w (k - Suc n)"
proof -
  have "bit (drop_bit (64 - k) (word_reverse w)) n \<longleftrightarrow> bit (word_reverse w) (64 - k + n)"
    by (simp add: bit_drop_bit_eq)
  also have "\<dots> \<longleftrightarrow> 64 - k + n < 64 \<and> bit w (64 - Suc (64 - k + n))"
    by (simp add: bit_word_reverse_iff)
  also have "\<dots> \<longleftrightarrow> n < k \<and> bit w (k - Suc n)"
  proof (cases "n < k")
    case True
    then have e: "64 - Suc (64 - k + n) = k - Suc n" and l: "64 - k + n < 64"
      using assms by simp_all
    show ?thesis unfolding e using l True by blast
  next
    case False
    then have "\<not> 64 - k + n < 64" using assms by simp
    then show ?thesis using False by blast
  qed
  finally show ?thesis .
qed

lemma reversed_word_involution:
  fixes w :: "64 word"
  assumes k: "k \<le> 64" and small: "\<And>n. bit w n \<Longrightarrow> n < k"
  shows "drop_bit (64 - k) (word_reverse (drop_bit (64 - k) (word_reverse w))) = w"
proof (rule bit_word_eqI)
  fix n
  have "bit (drop_bit (64 - k) (word_reverse (drop_bit (64 - k) (word_reverse w)))) n
        \<longleftrightarrow> n < k \<and> (k - Suc n < k \<and> bit w (k - Suc (k - Suc n)))"
    by (simp only: bit_reversed_index [OF k])
  also have "\<dots> \<longleftrightarrow> n < k \<and> bit w n"
  proof (cases "n < k")
    case True
    then have "k - Suc (k - Suc n) = n" by simp
    then show ?thesis using True by simp
  next
    case False
    then show ?thesis by simp
  qed
  also have "\<dots> \<longleftrightarrow> bit w n" using small by blast
  finally show "bit (drop_bit (64 - k) (word_reverse (drop_bit (64 - k) (word_reverse w)))) n
                \<longleftrightarrow> bit w n" .
qed


lemma unat_of_nat_below_power:
  assumes "k < 64" and "i < 2 ^ k"
  shows "unat (of_nat i :: 64 word) = i"
proof -
  have "(2::nat) ^ k < 2 ^ 64" using assms(1) by (rule power_strict_increasing) simp
  then have "i < 2 ^ 64" using assms(2) by simp
  then show ?thesis by (intro of_nat_inverse [OF refl]) simp
qed

lemma reversed_index_less:
  assumes "k < 64"
  shows "reversed_index k i < 2 ^ k"
proof -
  let ?r = "drop_bit (64 - k) (word_reverse (of_nat i :: 64 word))"
  have "take_bit k ?r = ?r"
    using assms by (intro bit_word_eqI) (auto simp: bit_take_bit_iff bit_reversed_index)
  then have "unat ?r = unat (take_bit k ?r)" by simp
  also have "\<dots> = take_bit k (unat ?r)" by (simp add: unsigned_take_bit_eq)
  also have "\<dots> < 2 ^ k" by (rule take_bit_nat_less_exp)
  finally show ?thesis by (simp add: reversed_index_def Reverse64_def)
qed

lemma reversed_index_involution:
  assumes k: "k < 64" and i: "i < 2 ^ k"
  shows "reversed_index k (reversed_index k i) = i"
proof -
  let ?w = "of_nat i :: 64 word"
  let ?r = "drop_bit (64 - k) (word_reverse ?w)"
  have small: "n < k" if "bit ?w n" for n
  proof -
    have "bit i n" using that by (simp add: bit_of_nat_iff)
    then show ?thesis using i by (rule bit_small_nat [rotated])
  qed
  have "of_nat (reversed_index k i) = ?r"
    by (simp add: reversed_index_def Reverse64_def)
  then have "reversed_index k (reversed_index k i) = unat (drop_bit (64 - k) (word_reverse ?r))"
    by (simp add: reversed_index_def Reverse64_def)
  also have "drop_bit (64 - k) (word_reverse ?r) = ?w"
    using k small by (intro reversed_word_involution) simp_all
  also have "unat ?w = i" by (rule unat_of_nat_below_power [OF k i])
  finally show ?thesis .
qed

lemma reversed_index_compare:
  assumes k: "k < 64" and i: "i < 2 ^ k"
  shows "(of_nat i :: 64 word) < drop_bit (64 - k) (Reverse64 (of_nat i))
         \<longleftrightarrow> i < reversed_index k i"
  using unat_of_nat_below_power [OF k i]
  by (simp add: word_less_nat_alt reversed_index_def)

lemma swap_loop:
  assumes lt: "\<And>i. i < n \<Longrightarrow> f i < n" and inv: "\<And>i. i < n \<Longrightarrow> f (f i) = i"
    and len: "length l = n" and m: "m \<le> n"
  shows "for_each [0..<m] (\<lambda>i l. if i < f i then swap_at l i (f i) else Inr l) l =
         Inr (map (\<lambda>j. if j < m \<or> f j < m then l ! f j else l ! j) [0..<n])"
  using m
proof (induction m)
  case 0
  have "map (\<lambda>j. l ! j) [0..<n] = l" unfolding len [symmetric] by (rule map_nth)
  then show ?case by simp
next
  case (Suc m)
  let ?cur = "map (\<lambda>j. if j < m \<or> f j < m then l ! f j else l ! j) [0..<n]"
  let ?next = "map (\<lambda>j. if j < Suc m \<or> f j < Suc m then l ! f j else l ! j) [0..<n]"
  have mn: "m < n" using Suc.prems by simp
  have fm: "f m < n" by (rule lt [OF mn])
  have IH: "for_each [0..<m] (\<lambda>i l. if i < f i then swap_at l i (f i) else Inr l) l = Inr ?cur"
    using Suc by simp
  have step: "(if m < f m then swap_at ?cur m (f m) else Inr ?cur) = Inr ?next"
  proof (cases "m < f m")
    case True
    have a: "?cur ! f m = l ! f m" using fm True inv [OF mn] by simp
    have b: "?cur ! m = l ! m" using mn True by simp
    have "?cur[m := ?cur ! f m, f m := ?cur ! m] = ?next"
    proof (rule nth_equalityI)
      show "length (?cur[m := ?cur ! f m, f m := ?cur ! m]) = length ?next" by simp
    next
      fix j assume "j < length (?cur[m := ?cur ! f m, f m := ?cur ! m])"
      then have jn: "j < n" by simp
      consider "j = f m" | "j = m" | "j \<noteq> f m" "j \<noteq> m" by blast
      then show "?cur[m := ?cur ! f m, f m := ?cur ! m] ! j = ?next ! j"
      proof cases
        case 1
        then show ?thesis using jn fm a b inv [OF mn] by simp
      next
        case 2
        then show ?thesis using jn fm mn a b True by simp
      next
        case 3
        have "f j \<noteq> m"
        proof
          assume "f j = m"
          then have "f (f j) = f m" by simp
          then show False using inv [OF jn] 3(1) by simp
        qed
        then have "(j < Suc m \<or> f j < Suc m) \<longleftrightarrow> (j < m \<or> f j < m)"
          using 3(2) by auto
        then show ?thesis using jn 3 by simp
      qed
    qed
    then show ?thesis using True mn fm by (simp add: swap_at_def)
  next
    case False
    have "?cur = ?next"
    proof (rule nth_equalityI)
      show "length ?cur = length ?next" by simp
    next
      fix j assume "j < length ?cur"
      then have jn: "j < n" by simp
      consider "j = m" | "j \<noteq> m" "f j = m" | "j \<noteq> m" "f j \<noteq> m" by blast
      then show "?cur ! j = ?next ! j"
      proof cases
        case 1
        show ?thesis
        proof (cases "f m = m")
          case True
          then show ?thesis using 1 jn by simp
        next
          case ne: False
          then have "f m < m" using False by simp
          then show ?thesis using 1 jn by simp
        qed
      next
        case 2
        then have "j = f m" using inv [OF jn] by simp
        then have "j < m" using False 2(1) by simp
        then show ?thesis using jn by simp
      next
        case 3
        then have "(j < Suc m \<or> f j < Suc m) \<longleftrightarrow> (j < m \<or> f j < m)" by auto
        then show ?thesis using jn by simp
      qed
    qed
    then show ?thesis using False by simp
  qed
  show ?case
    by (simp only: for_each_upt_Suc IH bind_err_simps step)
qed


lemma bitReverse_eq:
  assumes k: "k < 64" and len: "length list = 2 ^ k"
  shows "bitReverse list = Inr (map (\<lambda>j. list ! reversed_index k j) [0..<2 ^ k])"
proof -
  let ?n = "2 ^ k :: 64 word"
  let ?f = "reversed_index k"
  have n: "(of_nat (length list) :: 64 word) = ?n" using len by simp
  have p2: "IsPowerOfTwo ?n" using k by (auto simp: IsPowerOfTwo_def)
  have tz: "TrailingZeros64 ?n = k" by (rule TrailingZeros64_power_2 [OF k])
  have un: "unat ?n = 2 ^ k" by (rule unat_power_2 [OF k])
  have body: "(let irev = drop_bit (64 - k) (Reverse64 (of_nat i)) in
                 if irev > of_nat i then swap_at l i (unat irev) else Inr l) =
              (if i < ?f i then swap_at l i (?f i) else Inr l)"
    if "i \<in> set [0..<2 ^ k]" for i and l :: "'a list"
  proof -
    have "i < 2 ^ k" using that by simp
    then show ?thesis
      using reversed_index_compare [OF k, of i] by (simp add: Let_def reversed_index_def)
  qed
  have "bitReverse list =
        for_each [0..<2 ^ k]
          (\<lambda>i l. let irev = drop_bit (64 - k) (Reverse64 (of_nat i)) in
                   if irev > of_nat i then swap_at l i (unat irev) else Inr l) list"
    by (simp add: bitReverse_def n p2 tz un Let_def)
  also have "\<dots> = for_each [0..<2 ^ k] (\<lambda>i l. if i < ?f i then swap_at l i (?f i) else Inr l) list"
    by (rule for_each_cong) (rule body)
  also have "\<dots> = Inr (map (\<lambda>j. if j < 2 ^ k \<or> ?f j < 2 ^ k then list ! ?f j else list ! j)
                           [0..<2 ^ k])"
    using reversed_index_less [OF k] reversed_index_involution [OF k] len
    by (intro swap_loop) simp_all
  also have "map (\<lambda>j. if j < 2 ^ k \<or> ?f j < 2 ^ k then list ! ?f j else list ! j) [0..<2 ^ k] =
             map (\<lambda>j. list ! ?f j) [0..<2 ^ k]"
    by (rule map_cong) simp_all
  finally show ?thesis .
qed

lemma bitReverse_twice:
  assumes k: "k < 64" and len: "length list = 2 ^ k"
  shows "\<exists>l. bitReverse list = Inr l \<and> length l = 2 ^ k \<and> bitReverse l = Inr list"
proof -
  let ?f = "reversed_index k"
  let ?l = "map (\<lambda>j. list ! ?f j) [0..<2 ^ k]"
  have l: "length ?l = 2 ^ k" by simp
  have "map (\<lambda>j. ?l ! ?f j) [0..<2 ^ k] = list"
  proof (rule nth_equalityI)
    show "length (map (\<lambda>j. ?l ! ?f j) [0..<2 ^ k]) = length list" using len by simp
  next
    fix j assume "j < length (map (\<lambda>j. ?l ! ?f j) [0..<2 ^ k])"
    then have j: "j < 2 ^ k" by simp
    have "?l ! ?f j = list ! ?f (?f j)"
      using reversed_index_less [OF k, of j] by simp
    then show "map (\<lambda>j. ?l ! ?f j) [0..<2 ^ k] ! j = list ! j"
      using j reversed_index_involution [OF k j] by simp
  qed
  then have "bitReverse ?l = Inr list" using bitReverse_eq [OF k l] by simp
  then show ?thesis using bitReverse_eq [OF k len] l by blast
qed

text \<open>
  C10. For a domain whose \<open>Roots\<close> and \<open>PreComputedInverses\<close> have power-of-two lengths,
  \<open>ReverseRoots\<close> succeeds, a second call on its result restores the domain (both lists in
  their original order), and the first call leaves \<open>Cardinality\<close>, \<open>Generator\<close>,
  \<open>GeneratorInv\<close> and \<open>CardinalityInv\<close> unchanged.
\<close>

theorem ReverseRoots_involution:
  assumes "k < 64" and "length (Roots d) = 2 ^ k"
    and "k' < 64" and "length (PreComputedInverses d) = 2 ^ k'"
  shows "\<exists>d'. ReverseRoots d = Inr d' \<and> ReverseRoots d' = Inr d
              \<and> Cardinality d' = Cardinality d \<and> Generator d' = Generator d
              \<and> GeneratorInv d' = GeneratorInv d \<and> CardinalityInv d' = CardinalityInv d"
proof -
  obtain r where r: "bitReverse (Roots d) = Inr r" "bitReverse r = Inr (Roots d)"
    using bitReverse_twice [OF assms(1,2)] by blast
  obtain p where p: "bitReverse (PreComputedInverses d) = Inr p"
    "bitReverse p = Inr (PreComputedInverses d)"
    using bitReverse_twice [OF assms(3,4)] by blast
  let ?d = "d\<lparr>Roots := r, PreComputedInverses := p\<rparr>"
  have "ReverseRoots d = Inr ?d" by (simp add: ReverseRoots_def r p)
  moreover have "ReverseRoots ?d = Inr d" by (simp add: ReverseRoots_def r p)
  ultimately show ?thesis by (intro exI [of _ ?d]) simp
qed

theorem ReverseRoots_involution_witness:
  "length (Roots domain_of_size_2) = 2 ^ 1
   \<and> length (PreComputedInverses domain_of_size_2) = 2 ^ 1
   \<and> (\<exists>d'. ReverseRoots domain_of_size_2 = Inr d' \<and> ReverseRoots d' = Inr domain_of_size_2
           \<and> Cardinality d' = 2 \<and> Generator d' = fr_modulus - 1)"
proof -
  have a: "length (Roots domain_of_size_2) = 2 ^ 1"
    and b: "length (PreComputedInverses domain_of_size_2) = 2 ^ 1"
    by (simp_all add: domain_of_size_2_def)
  have "(1::nat) < 64" by simp
  from ReverseRoots_involution [OF this a this b]
  show ?thesis using a b by (auto simp: domain_of_size_2_def)
qed

section \<open>Properties of the decoders\<close>

lemma be_bytes_value_snoc: "be_bytes_value (bs @ [b]) = 256 * be_bytes_value bs + uint b"
  by (simp add: be_bytes_value_def)

lemma be_rev_is_le: "be_bytes_value (rev bs) = le_bytes_value bs"
proof (induction bs)
  case Nil
  show ?case by (simp add: be_bytes_value_def le_bytes_value_def)
next
  case (Cons b bs)
  have "be_bytes_value (rev (b # bs)) = 256 * be_bytes_value (rev bs) + uint b"
    by (simp add: be_bytes_value_snoc)
  also have "\<dots> = uint b + 256 * le_bytes_value bs"
    using Cons.IH by simp
  finally show ?case by (simp add: le_bytes_value_def)
qed

lemma le_bytes_value_nonneg: "0 \<le> le_bytes_value bs"
  by (induction bs) (simp_all add: le_bytes_value_def)

lemma deserialiseScalar_eq:
  "deserialiseScalar s =
     (if fr_modulus \<le> le_bytes_value s then Inl ErrScalarNotCanonical
      else Inr (le_bytes_value s))"
  using le_bytes_value_nonneg [of s]
  by (simp add: deserialiseScalar_def ReduceCanonical_def ReverseArray_def be_rev_is_le)

lemma le_mm1: "le_bytes_value modulus_minus_one_le = fr_modulus - 1"
  by (simp add: le_bytes_value_def modulus_minus_one_le_def fr_modulus_def)

lemma le_m: "le_bytes_value modulus_le = fr_modulus"
  by (simp add: le_bytes_value_def modulus_le_def fr_modulus_def)

text \<open>
  C4. Decoding a serialised scalar reads the bytes in reversed (little-endian) order and fails
  with the non-canonical-scalar error if and only if the integer read is at least the field
  modulus; otherwise it returns that integer itself, never a reduced one, and it fails in no
  other way. The little-endian encoding of the modulus minus one decodes successfully.
\<close>

theorem deserialiseScalar_canonical:
  "(deserialiseScalar s = Inl ErrScalarNotCanonical \<longleftrightarrow> fr_modulus \<le> le_bytes_value s)
   \<and> (le_bytes_value s < fr_modulus \<longrightarrow> deserialiseScalar s = Inr (le_bytes_value s))
   \<and> (\<forall>e. deserialiseScalar s = Inl e \<longrightarrow> e = ErrScalarNotCanonical)
   \<and> deserialiseScalar modulus_minus_one_le = Inr (fr_modulus - 1)"
  by (simp add: deserialiseScalar_eq le_mm1)

theorem deserialiseScalar_canonical_witness:
  "le_bytes_value modulus_minus_one_le < fr_modulus
   \<and> deserialiseScalar modulus_minus_one_le = Inr (le_bytes_value modulus_minus_one_le)
   \<and> fr_modulus \<le> le_bytes_value modulus_le
   \<and> deserialiseScalar modulus_le = Inl ErrScalarNotCanonical"
  using deserialiseScalar_canonical [of modulus_minus_one_le]
    deserialiseScalar_canonical [of modulus_le]
  by (simp add: le_mm1 le_m)


lemma decode_each_Inr_iff:
  "decode_each dec xs = Inr ys \<longleftrightarrow>
     length ys = length xs \<and> (\<forall>i<length xs. dec (xs ! i) = Inr (ys ! i))"
proof (induction xs arbitrary: ys)
  case Nil
  show ?case by auto
next
  case (Cons x xs)
  show ?case
  proof (cases "dec x")
    case (Inl err)
    then show ?thesis by auto
  next
    case (Inr y)
    show ?thesis
    proof (cases "decode_each dec xs")
      case (Inl err)
      then have "\<not> (length zs = length xs \<and> (\<forall>i<length xs. dec (xs ! i) = Inr (zs ! i)))" for zs
        using Cons.IH [of zs] by simp
      then have "\<not> (length ys = length (x # xs) \<and>
                    (\<forall>i<length (x # xs). dec ((x # xs) ! i) = Inr (ys ! i)))"
        by (cases ys) (auto simp: nth_Cons split: nat.splits)
      with Inl Inr show ?thesis by simp
    next
      case r: (Inr zs)
      then have zs: "length zs = length xs" "\<forall>i<length xs. dec (xs ! i) = Inr (zs ! i)"
        using Cons.IH [of zs] by simp_all
      show ?thesis
      proof
        assume "decode_each dec (x # xs) = Inr ys"
        then have "ys = y # zs" using Inr r by simp
        then show "length ys = length (x # xs) \<and>
                   (\<forall>i<length (x # xs). dec ((x # xs) ! i) = Inr (ys ! i))"
          using zs Inr by (auto simp: nth_Cons split: nat.splits)
      next
        assume a: "length ys = length (x # xs) \<and>
                   (\<forall>i<length (x # xs). dec ((x # xs) ! i) = Inr (ys ! i))"
        then obtain y' ys' where ys: "ys = y' # ys'" by (cases ys) auto
        from a ys have "dec x = Inr y'" by auto
        then have "y' = y" using Inr by simp
        moreover have "length ys' = length xs \<and> (\<forall>i<length xs. dec (xs ! i) = Inr (ys' ! i))"
          using a ys by auto
        then have "decode_each dec xs = Inr ys'" using Cons.IH [of ys'] by simp
        then have "ys' = zs" using r by simp
        ultimately show "decode_each dec (x # xs) = Inr ys"
          using Inr r ys by simp
      qed
    qed
  qed
qed

lemma decode_each_Inl_iff:
  "decode_each dec xs = Inl e \<longleftrightarrow>
     (\<exists>i<length xs. dec (xs ! i) = Inl e \<and> (\<forall>j<i. \<exists>v. dec (xs ! j) = Inr v))"
proof (induction xs)
  case Nil
  show ?case by simp
next
  case (Cons x xs)
  show ?case
  proof (cases "dec x")
    case (Inl err)
    show ?thesis
    proof
      assume "decode_each dec (x # xs) = Inl e"
      then have "err = e" using Inl by simp
      then have "dec ((x # xs) ! 0) = Inl e \<and> (\<forall>j<0::nat. \<exists>v. dec ((x # xs) ! j) = Inr v)"
        using Inl by simp
      then show "\<exists>i<length (x # xs). dec ((x # xs) ! i) = Inl e \<and>
                   (\<forall>j<i. \<exists>v. dec ((x # xs) ! j) = Inr v)"
        by (intro exI [of _ 0]) simp
    next
      assume "\<exists>i<length (x # xs). dec ((x # xs) ! i) = Inl e \<and>
                (\<forall>j<i. \<exists>v. dec ((x # xs) ! j) = Inr v)"
      then obtain i where i: "i < length (x # xs)" "dec ((x # xs) ! i) = Inl e"
        "\<forall>j<i. \<exists>v. dec ((x # xs) ! j) = Inr v" by blast
      have "i = 0"
      proof (rule ccontr)
        assume "i \<noteq> 0"
        then have "\<exists>v. dec ((x # xs) ! 0) = Inr v" using i(3) by blast
        then show False using Inl by simp
      qed
      then show "decode_each dec (x # xs) = Inl e" using i(2) Inl by simp
    qed
  next
    case (Inr y)
    have step: "decode_each dec (x # xs) = Inl e \<longleftrightarrow> decode_each dec xs = Inl e"
      using Inr by (simp split: sum.splits)
    have "(\<exists>i<length (x # xs). dec ((x # xs) ! i) = Inl e \<and>
              (\<forall>j<i. \<exists>v. dec ((x # xs) ! j) = Inr v)) \<longleftrightarrow>
          (\<exists>i<length xs. dec (xs ! i) = Inl e \<and> (\<forall>j<i. \<exists>v. dec (xs ! j) = Inr v))"
      (is "?L \<longleftrightarrow> ?R")
    proof
      assume ?L
      then obtain i where i: "i < length (x # xs)" "dec ((x # xs) ! i) = Inl e"
        "\<forall>j<i. \<exists>v. dec ((x # xs) ! j) = Inr v" by blast
      from i(2) Inr obtain k where k: "i = Suc k" by (cases i) auto
      have "\<forall>j<k. \<exists>v. dec (xs ! j) = Inr v"
      proof (intro allI impI)
        fix j assume "j < k"
        then have "Suc j < i" using k by simp
        then have "\<exists>v. dec ((x # xs) ! Suc j) = Inr v" using i(3) by blast
        then show "\<exists>v. dec (xs ! j) = Inr v" by simp
      qed
      then show ?R using i k by (intro exI [of _ k]) simp
    next
      assume ?R
      then obtain i where i: "i < length xs" "dec (xs ! i) = Inl e"
        "\<forall>j<i. \<exists>v. dec (xs ! j) = Inr v" by blast
      have "\<forall>j<Suc i. \<exists>v. dec ((x # xs) ! j) = Inr v"
        using i(3) Inr by (auto simp: nth_Cons split: nat.splits)
      then show ?L using i by (intro exI [of _ "Suc i"]) simp
    qed
    then show ?thesis using step Cons.IH by simp
  qed
qed

lemma deserialisePoly_loop_decode_each:
  "i \<le> length serPoly \<Longrightarrow> length poly = length serPoly \<Longrightarrow>
   deserialisePoly_loop serPoly i poly =
     (case decode_each deserialiseScalar (drop i serPoly) of
        Inl err \<Rightarrow> Inl err
      | Inr ys \<Rightarrow> Inr (take i poly @ ys))"
proof (induction serPoly i poly rule: deserialisePoly_loop.induct)
  case (1 serPoly i poly)
  show ?case
  proof (cases "i < length serPoly")
    case False
    then show ?thesis using "1.prems" by simp
  next
    case True
    then have d: "drop i serPoly = serPoly ! i # drop (Suc i) serPoly"
      by (simp add: Cons_nth_drop_Suc)
    show ?thesis
    proof (cases "deserialiseScalar (serPoly ! i)")
      case (Inl err)
      then show ?thesis using True d by simp
    next
      case (Inr scalar)
      have "deserialisePoly_loop serPoly i poly =
            deserialisePoly_loop serPoly (i + 1) (poly[i := scalar])"
        using True Inr by simp
      also have "\<dots> = (case decode_each deserialiseScalar (drop (i + 1) serPoly) of
                          Inl err \<Rightarrow> Inl err
                        | Inr ys \<Rightarrow> Inr (take (i + 1) (poly[i := scalar]) @ ys))"
        using "1.IH" [OF True Inr] True "1.prems" by simp
      also have "take (i + 1) (poly[i := scalar]) = take i poly @ [scalar]"
        using True "1.prems" by (simp add: take_Suc_conv_app_nth)
      finally show ?thesis using d Inr by (simp split: sum.splits)
    qed
  qed
qed

lemma deserialisePoly_decode_each:
  "deserialisePoly serPoly = decode_each deserialiseScalar serPoly"
  using deserialisePoly_loop_decode_each [of 0 serPoly "replicate (length serPoly) 0"]
  by (simp add: deserialisePoly_def split: sum.splits)

lemma deserialiseComms_loop_decode_each:
  "i \<le> length serComms \<Longrightarrow> length comms = length serComms \<Longrightarrow>
   deserialiseComms_loop SetBytes serComms i comms =
     (case decode_each (deserialiseG1Point SetBytes) (drop i serComms) of
        Inl err \<Rightarrow> Inl err
      | Inr ys \<Rightarrow> Inr (take i comms @ ys))"
proof (induction SetBytes serComms i comms rule: deserialiseComms_loop.induct)
  case (1 SetBytes serComms i comms)
  show ?case
  proof (cases "i < length serComms")
    case False
    then show ?thesis using "1.prems" by simp
  next
    case True
    then have d: "drop i serComms = serComms ! i # drop (Suc i) serComms"
      by (simp add: Cons_nth_drop_Suc)
    show ?thesis
    proof (cases "deserialiseG1Point SetBytes (serComms ! i)")
      case (Inl err)
      then show ?thesis using True d by simp
    next
      case (Inr comm)
      have "deserialiseComms_loop SetBytes serComms i comms =
            deserialiseComms_loop SetBytes serComms (i + 1) (comms[i := comm])"
        using True Inr by simp
      also have "\<dots> = (case decode_each (deserialiseG1Point SetBytes) (drop (i + 1) serComms) of
                          Inl err \<Rightarrow> Inl err
                        | Inr ys \<Rightarrow> Inr (take (i + 1) (comms[i := comm]) @ ys))"
        using "1.IH" [OF True Inr] True "1.prems" by simp
      also have "take (i + 1) (comms[i := comm]) = take i comms @ [comm]"
        using True "1.prems" by (simp add: take_Suc_conv_app_nth)
      finally show ?thesis using d Inr by (simp split: sum.splits)
    qed
  qed
qed

lemma deserialiseComms_decode_each:
  "deserialiseComms SetBytes serComms = decode_each (deserialiseG1Point SetBytes) serComms"
  using deserialiseComms_loop_decode_each
    [of 0 serComms "replicate (length serComms) 0" SetBytes]
  by (simp add: deserialiseComms_def split: sum.splits)

text \<open>
  C8. \<open>deserialisePoly\<close> returns a polynomial exactly when every element decodes, and then
  it is the list of all decoded elements; it returns an error exactly when some element fails,
  and the error is that of the first failing element, every element before it having decoded.
  An error carries no partial list. The same holds for \<open>deserialiseComms\<close>.
\<close>

theorem deserialise_fail_fast:
  "(deserialisePoly serPoly = Inr poly \<longleftrightarrow>
      length poly = length serPoly \<and>
      (\<forall>i<length serPoly. deserialiseScalar (serPoly ! i) = Inr (poly ! i)))
   \<and> (deserialisePoly serPoly = Inl e \<longleftrightarrow>
      (\<exists>i<length serPoly. deserialiseScalar (serPoly ! i) = Inl e \<and>
         (\<forall>j<i. \<exists>v. deserialiseScalar (serPoly ! j) = Inr v)))
   \<and> (deserialiseComms SetBytes serComms = Inr (comms :: 'g::ab_group_add list) \<longleftrightarrow>
      length comms = length serComms \<and>
      (\<forall>i<length serComms. deserialiseG1Point SetBytes (serComms ! i) = Inr (comms ! i)))
   \<and> (deserialiseComms SetBytes serComms = Inl e' \<longleftrightarrow>
      (\<exists>i<length serComms. deserialiseG1Point SetBytes (serComms ! i) = Inl e' \<and>
         (\<forall>j<i. \<exists>v. deserialiseG1Point SetBytes (serComms ! j) = Inr v)))"
  unfolding deserialisePoly_decode_each deserialiseComms_decode_each
  by (intro conjI decode_each_Inr_iff decode_each_Inl_iff)


theorem deserialise_fail_fast_witness:
  "deserialisePoly [modulus_minus_one_le, modulus_minus_one_le] =
     Inr [fr_modulus - 1, fr_modulus - 1]
   \<and> deserialisePoly [modulus_minus_one_le, modulus_le, modulus_minus_one_le] =
     Inl ErrScalarNotCanonical
   \<and> deserialiseComms toy_SetBytes [replicate 48 7, replicate 48 9] = Inr [7, 9]
   \<and> deserialiseComms toy_SetBytes [replicate 48 7, replicate 48 0, replicate 48 9] =
     Inl (ErrLibrary ''invalid point'')"
proof -
  have ok: "deserialiseScalar modulus_minus_one_le = Inr (fr_modulus - 1)"
    by (simp add: deserialiseScalar_eq le_mm1)
  have bad: "deserialiseScalar modulus_le = Inl ErrScalarNotCanonical"
    by (simp add: deserialiseScalar_eq le_m)
  have g7: "deserialiseG1Point toy_SetBytes (replicate 48 7) = Inr 7"
    by (simp add: deserialiseG1Point_def toy_SetBytes_def)
  have g9: "deserialiseG1Point toy_SetBytes (replicate 48 9) = Inr 9"
    by (simp add: deserialiseG1Point_def toy_SetBytes_def)
  have g0: "deserialiseG1Point toy_SetBytes (replicate 48 0) = Inl (ErrLibrary ''invalid point'')"
    by (simp add: deserialiseG1Point_def toy_SetBytes_def)
  have a: "deserialisePoly [modulus_minus_one_le, modulus_minus_one_le] =
           Inr [fr_modulus - 1, fr_modulus - 1]"
    by (rule deserialise_fail_fast [THEN conjunct1, THEN iffD2])
       (simp add: ok nth_Cons less_Suc_eq split: nat.splits)
  have b: "deserialisePoly [modulus_minus_one_le, modulus_le, modulus_minus_one_le] =
           Inl ErrScalarNotCanonical"
    by (rule deserialise_fail_fast [THEN conjunct2, THEN conjunct1, THEN iffD2])
       (rule exI [of _ 1], simp add: ok bad)
  have c: "deserialiseComms toy_SetBytes [replicate 48 7, replicate 48 9] = Inr [7, 9]"
    by (rule deserialise_fail_fast [THEN conjunct2, THEN conjunct2, THEN conjunct1, THEN iffD2])
       (simp add: g7 g9 nth_Cons less_Suc_eq split: nat.splits)
  have d: "deserialiseComms toy_SetBytes [replicate 48 7, replicate 48 0, replicate 48 9] =
           Inl (ErrLibrary ''invalid point'')"
    by (rule deserialise_fail_fast [THEN conjunct2, THEN conjunct2, THEN conjunct2, THEN iffD2])
       (rule exI [of _ 1], simp add: g7 g0)
  show ?thesis using a b c d by simp
qed
end
